theory Spec2Isabelle
  imports Complex_Main
begin

section \<open>IEEE 754 binary64 values and arithmetic (\<open>npy_double\<close>)\<close>

text \<open>
  The kernels of \<open>gufuncs_cloop.c\<close> compute on \<open>npy_double\<close> with the C operators
  \<open>+\<close>, \<open>-\<close>, \<open>*\<close>, \<open>/\<close>, \<open><\<close>, \<open>>\<close> and \<open>npy_sqrt\<close>.  A double is modelled by its
  value: not-a-number, a signed infinity, a signed zero, or a non-zero rational.  The
  boolean of \<open>Infty\<close> and \<open>Zero\<close> is the sign bit (\<open>True\<close> is negative).  Every operation
  yields the exact result rounded to the nearest binary64 number, ties to even
  (the default rounding mode), every operation rounded on its own.  \<open>Finite q\<close> stands for
  a double only when \<open>q\<close> is a non-zero binary64 number (\<open>double_ok\<close>); NaN payloads are
  not distinguished.
\<close>

datatype double = NaN | Infty bool | Zero bool | Finite rat

definition pow2 :: "int \<Rightarrow> rat" where
  "pow2 e = (if 0 \<le> e then 2 ^ nat e else 1 / 2 ^ nat (- e))"

text \<open>For evaluation: powers of two by repeated squaring.\<close>

lemma pow2_code [code]:
  "pow2 e = (if e < 0 then 1 / pow2 (- e)
             else if e = 0 then 1
             else if even e then (let h = pow2 (e div 2) in h * h)
             else 2 * pow2 (e - 1))"
proof -
  have ev: "(2::rat) ^ nat e = 2 ^ nat (e div 2) * 2 ^ nat (e div 2)" if "0 < e" "even e"
  proof -
    from that have "nat e = nat (e div 2) + nat (e div 2)" by (auto elim!: evenE)
    then show ?thesis by (metis power_add)
  qed
  have od: "(2::rat) ^ nat e = 2 * 2 ^ nat (e - 1)" if "0 < e"
  proof -
    from that have "nat e = Suc (nat (e - 1))" by simp
    then show ?thesis by (metis power_Suc)
  qed
  show ?thesis
    using ev od by (auto simp: pow2_def Let_def)
qed

function bitlen :: "int \<Rightarrow> int" where
  "bitlen n = (if n \<le> 0 then 0 else 1 + bitlen (n div 2))"
  by pat_completeness auto
termination
  by (relation "measure nat") auto

declare bitlen.simps [simp del]

text \<open>\<open>floor_log2 a\<close> is the exponent \<open>e\<close> with \<open>2^e \<le> a < 2^(e+1)\<close>, for \<open>a > 0\<close>.\<close>

definition floor_log2 :: "rat \<Rightarrow> int" where
  "floor_log2 a =
     (let (p, q) = quotient_of a;
          k = bitlen p - bitlen q
      in if pow2 k \<le> a then k else k - 1)"

definition round_half_even :: "rat \<Rightarrow> int" where
  "round_half_even x =
     (let n = \<lfloor>x\<rfloor>; f = x - of_int n
      in if f < 1 / 2 then n
         else if 1 / 2 < f then n + 1
         else if even n then n else n + 1)"

text \<open>
  Rounding of a positive magnitude \<open>a\<close> with sign \<open>s\<close>: 53 significant bits, exponents
  from \<open>-1022\<close> (below it the spacing stays \<open>2^-1074\<close>: subnormal numbers, and underflow to a
  signed zero), overflow to a signed infinity from \<open>2^1024\<close> on.
\<close>

definition round_mag :: "bool \<Rightarrow> rat \<Rightarrow> double" where
  "round_mag s a =
     (let e = max (floor_log2 a) (- 1022);
          ulp = pow2 (e - 52);
          m = of_int (round_half_even (a / ulp)) * ulp
      in if pow2 1024 \<le> m then Infty s
         else if m = 0 then Zero s
         else Finite (if s then - m else m))"

definition round64 :: "rat \<Rightarrow> double" where
  "round64 q =
     (if q = 0 then Zero False
      else if q < 0 then round_mag True (- q)
      else round_mag False q)"

definition double_ok :: "double \<Rightarrow> bool" where
  "double_ok d = (case d of Finite q \<Rightarrow> q \<noteq> 0 \<and> round64 q = Finite q | _ \<Rightarrow> True)"

fun fneg :: "double \<Rightarrow> double" where
  "fneg NaN = NaN"
| "fneg (Infty s) = Infty (\<not> s)"
| "fneg (Zero s) = Zero (\<not> s)"
| "fneg (Finite q) = Finite (- q)"

fun fadd :: "double \<Rightarrow> double \<Rightarrow> double" where
  "fadd NaN y = NaN"
| "fadd x NaN = NaN"
| "fadd (Infty s) (Infty t) = (if s = t then Infty s else NaN)"
| "fadd (Infty s) y = Infty s"
| "fadd x (Infty t) = Infty t"
| "fadd (Zero s) (Zero t) = Zero (s \<and> t)"
| "fadd (Zero s) (Finite b) = Finite b"
| "fadd (Finite a) (Zero t) = Finite a"
| "fadd (Finite a) (Finite b) = round64 (a + b)"

definition fsub :: "double \<Rightarrow> double \<Rightarrow> double" where
  "fsub x y = fadd x (fneg y)"

fun fmul :: "double \<Rightarrow> double \<Rightarrow> double" where
  "fmul NaN y = NaN"
| "fmul x NaN = NaN"
| "fmul (Infty s) (Infty t) = Infty (s \<noteq> t)"
| "fmul (Infty s) (Zero t) = NaN"
| "fmul (Zero s) (Infty t) = NaN"
| "fmul (Infty s) (Finite b) = Infty (s \<noteq> (b < 0))"
| "fmul (Finite a) (Infty t) = Infty ((a < 0) \<noteq> t)"
| "fmul (Zero s) (Zero t) = Zero (s \<noteq> t)"
| "fmul (Zero s) (Finite b) = Zero (s \<noteq> (b < 0))"
| "fmul (Finite a) (Zero t) = Zero ((a < 0) \<noteq> t)"
| "fmul (Finite a) (Finite b) = round64 (a * b)"

fun fdiv :: "double \<Rightarrow> double \<Rightarrow> double" where
  "fdiv NaN y = NaN"
| "fdiv x NaN = NaN"
| "fdiv (Infty s) (Infty t) = NaN"
| "fdiv (Infty s) (Zero t) = Infty (s \<noteq> t)"
| "fdiv (Infty s) (Finite b) = Infty (s \<noteq> (b < 0))"
| "fdiv (Zero s) (Infty t) = Zero (s \<noteq> t)"
| "fdiv (Finite a) (Infty t) = Zero ((a < 0) \<noteq> t)"
| "fdiv (Zero s) (Zero t) = NaN"
| "fdiv (Zero s) (Finite b) = Zero (s \<noteq> (b < 0))"
| "fdiv (Finite a) (Zero t) = Infty ((a < 0) \<noteq> t)"
| "fdiv (Finite a) (Finite b) = round64 (a / b)"

text \<open>
  Comparison: false whenever an operand is NaN; the two zeros compare equal.  \<open>frank\<close> and
  \<open>fval\<close> place the other values on the extended rational line.
\<close>

fun frank :: "double \<Rightarrow> int" where
  "frank NaN = 0"
| "frank (Infty s) = (if s then - 1 else 1)"
| "frank (Zero s) = 0"
| "frank (Finite q) = 0"

fun fval :: "double \<Rightarrow> rat" where
  "fval NaN = 0"
| "fval (Infty s) = 0"
| "fval (Zero s) = 0"
| "fval (Finite q) = q"

definition flt :: "double \<Rightarrow> double \<Rightarrow> bool" where
  "flt x y = (x \<noteq> NaN \<and> y \<noteq> NaN \<and>
              (frank x < frank y \<or> (frank x = frank y \<and> fval x < fval y)))"

definition fgt :: "double \<Rightarrow> double \<Rightarrow> bool" where
  "fgt x y = flt y x"

function isqrt :: "int \<Rightarrow> int" where
  "isqrt n = (if n < 2 then (if n < 0 then 0 else n)
              else let s = 2 * isqrt (n div 4)
                   in if (s + 1) * (s + 1) \<le> n then s + 1 else s)"
  by pat_completeness auto
termination
  by (relation "measure nat") auto

declare isqrt.simps [simp del]

text \<open>The correctly rounded square root of a positive rational (it never overflows
  nor underflows).\<close>

definition sqrt64 :: "rat \<Rightarrow> double" where
  "sqrt64 q =
     (let es = floor_log2 q div 2;
          ulp = pow2 (es - 52);
          r = q / (ulp * ulp);
          n = isqrt \<lfloor>r\<rfloor>;
          mid = (of_int n + 1 / 2) * (of_int n + 1 / 2);
          n' = (if r < mid then n
                else if mid < r then n + 1
                else if even n then n else n + 1)
      in Finite (of_int n' * ulp))"

fun npy_sqrt :: "double \<Rightarrow> double" where
  "npy_sqrt NaN = NaN"
| "npy_sqrt (Infty s) = (if s then NaN else Infty False)"
| "npy_sqrt (Zero s) = Zero s"
| "npy_sqrt (Finite q) = (if q < 0 then NaN else sqrt64 q)"

text \<open>
  Modelled from the spec: \<open>gufunc_common.h\<close>, which declares the constants \<open>d_inf\<close> and
  \<open>d_zero\<close> and sets them in \<open>init_constants\<close>, is not among the sources.  The spec says
  "Initial min is set to positive infinity, initial max to zero".
\<close>

definition d_inf :: double where
  "d_inf = Infty False"

text \<open>Modelled from the spec: the constant \<open>d_zero\<close> of the missing \<open>gufunc_common.h\<close>
  ("initial max to zero").\<close>

definition d_zero :: double where
  "d_zero = Zero False"


section \<open>Memory, pointers and counted loops\<close>

text \<open>
  \<open>npy_intp\<close> values and \<open>char *\<close> pointers are integers (byte addresses; no claim depends
  on their width).  The memory gives the double stored at each address at which one
  starts; the operands handed to a kernel are arrays of aligned doubles, so two doubles
  either coincide or are disjoint.
\<close>

type_synonym npy_intp = int
type_synonym memory = "int \<Rightarrow> double"

text \<open>The loop \<open>for (i = lo; i < n; i++) s = body i s\<close>.\<close>

function for_loop :: "npy_intp \<Rightarrow> npy_intp \<Rightarrow> (npy_intp \<Rightarrow> 's \<Rightarrow> 's) \<Rightarrow> 's \<Rightarrow> 's" where
  "for_loop i n body s = (if i < n then for_loop (i + 1) n body (body i s) else s)"
  by pat_completeness auto
termination
  by (relation "measure (\<lambda>(i, n, body, s). nat (n - i))") auto

declare for_loop.simps [simp del]

section \<open>Structs used for array iteration\<close>

record LINEARIZE_DATA_t =
  len :: npy_intp
  strides :: npy_intp
  back_strides :: npy_intp

definition init_linearize_vdata :: "npy_intp \<Rightarrow> npy_intp \<Rightarrow> LINEARIZE_DATA_t" where
  "init_linearize_vdata len0 strides0 =
     \<lparr>len = len0, strides = strides0, back_strides = len0 * strides0\<rparr>"

section \<open>PDIST_RATIO and CDIST_RATIO\<close>

text \<open>
  \<open>DOUBLE_dist\<close>: the loop state is \<open>(X, Y, *dist)\<close>.  \<open>X\<close> and \<open>Y\<close> are the function's own
  copies of the pointers, so the rewinding after the loop is not seen by the caller;
  the accumulator behind \<open>dist\<close> (initially \<open>dist0\<close>) is a local variable of the
  caller, never part of the arrays.
\<close>

definition dist_step ::
  "memory \<Rightarrow> LINEARIZE_DATA_t \<Rightarrow> LINEARIZE_DATA_t \<Rightarrow> npy_intp
    \<Rightarrow> int \<times> int \<times> double \<Rightarrow> int \<times> int \<times> double" where
  "dist_step mem x_in y_in m =
     (\<lambda>(X, Y, dist).
        let separation = fsub (mem X) (mem Y)
        in (X + strides x_in, Y + strides y_in, fadd dist (fmul separation separation)))"

definition DOUBLE_dist_state ::
  "memory \<Rightarrow> int \<Rightarrow> int \<Rightarrow> double \<Rightarrow> LINEARIZE_DATA_t \<Rightarrow> LINEARIZE_DATA_t
    \<Rightarrow> int \<times> int \<times> double" where
  "DOUBLE_dist_state mem X Y dist0 x_in y_in =
     (case for_loop 0 (len x_in) (dist_step mem x_in y_in) (X, Y, dist0) of
        (X', Y', dist') \<Rightarrow> (X' - back_strides x_in, Y' - back_strides y_in, dist'))"

definition DOUBLE_dist ::
  "memory \<Rightarrow> int \<Rightarrow> int \<Rightarrow> double \<Rightarrow> LINEARIZE_DATA_t \<Rightarrow> LINEARIZE_DATA_t \<Rightarrow> double" where
  "DOUBLE_dist mem X Y dist0 x_in y_in =
     (case DOUBLE_dist_state mem X Y dist0 x_in y_in of (X', Y', dist') \<Rightarrow> dist')"

text \<open>The two updates \<open>if (ratio < dr_min) dr_min = ratio; if (ratio > dr_max) dr_max = ratio;\<close>\<close>

definition ratio_update :: "double \<Rightarrow> double \<times> double \<Rightarrow> double \<times> double" where
  "ratio_update ratio =
     (\<lambda>(dr_min, dr_max).
        (if flt ratio dr_min then ratio else dr_min,
         if fgt ratio dr_max then ratio else dr_max))"

text \<open>Body of the loop over \<open>d2\<close> in \<open>DOUBLE_pdist_ratio\<close>; the state is
  \<open>(ip_num_to, ip_den_to, (dr_min, dr_max))\<close>.\<close>

definition pdist_inner ::
  "memory \<Rightarrow> LINEARIZE_DATA_t \<Rightarrow> LINEARIZE_DATA_t \<Rightarrow> npy_intp \<Rightarrow> npy_intp \<Rightarrow> int \<Rightarrow> int
    \<Rightarrow> npy_intp \<Rightarrow> int \<times> int \<times> double \<times> double \<Rightarrow> int \<times> int \<times> double \<times> double" where
  "pdist_inner mem num_in den_in stride_num_d stride_den_d ip_num_fr ip_den_fr d2 =
     (\<lambda>(ip_num_to, ip_den_to, dr).
        let numerator = DOUBLE_dist mem ip_num_fr ip_num_to d_zero num_in num_in;
            denominator = DOUBLE_dist mem ip_den_fr ip_den_to d_zero den_in den_in;
            ratio = fdiv numerator denominator
        in (ip_num_to + stride_num_d, ip_den_to + stride_den_d, ratio_update ratio dr))"

text \<open>Body of the loop over \<open>d1\<close>; the state is \<open>(ip_num_fr, ip_den_fr, (dr_min, dr_max))\<close>.\<close>

definition pdist_outer ::
  "memory \<Rightarrow> LINEARIZE_DATA_t \<Rightarrow> LINEARIZE_DATA_t \<Rightarrow> npy_intp \<Rightarrow> npy_intp \<Rightarrow> npy_intp
    \<Rightarrow> npy_intp \<Rightarrow> int \<times> int \<times> double \<times> double \<Rightarrow> int \<times> int \<times> double \<times> double" where
  "pdist_outer mem num_in den_in len_d stride_num_d stride_den_d d1 =
     (\<lambda>(ip_num_fr, ip_den_fr, dr).
        let ip_num_to = ip_num_fr + stride_num_d;
            ip_den_to = ip_den_fr + stride_den_d
        in case for_loop (d1 + 1) len_d
                  (pdist_inner mem num_in den_in stride_num_d stride_den_d ip_num_fr ip_den_fr)
                  (ip_num_to, ip_den_to, dr) of
             (ip_num_to', ip_den_to', dr') \<Rightarrow>
               (ip_num_fr + stride_num_d, ip_den_fr + stride_den_d, dr'))"

text \<open>
  The code between \<open>BEGIN_OUTER_LOOP_4\<close> and \<open>END_OUTER_LOOP_4\<close>: one batch element.
  \<open>args\<close> holds the four operand pointers; the core dimensions and steps are those read
  from \<open>dimensions\<close> and \<open>steps\<close> before the loop.
\<close>

definition pdist_ratio_body ::
  "npy_intp \<Rightarrow> npy_intp \<Rightarrow> npy_intp \<Rightarrow> npy_intp \<Rightarrow> npy_intp \<Rightarrow> npy_intp \<Rightarrow> npy_intp
    \<Rightarrow> int list \<Rightarrow> memory \<Rightarrow> memory" where
  "pdist_ratio_body len_d len_m len_n stride_num_d stride_m stride_den_d stride_n args mem =
     (let num_in = init_linearize_vdata len_m stride_m;
          den_in = init_linearize_vdata len_n stride_n;
          ip_num_fr = args ! 0;
          ip_den_fr = args ! 1;
          op1 = args ! 2;
          op2 = args ! 3
      in case for_loop 0 (len_d - 1)
                (pdist_outer mem num_in den_in len_d stride_num_d stride_den_d)
                (ip_num_fr, ip_den_fr, d_inf, d_zero) of
           (ip_num_fr', ip_den_fr', dr_min, dr_max) \<Rightarrow>
             (mem(op1 := npy_sqrt dr_min))(op2 := npy_sqrt dr_max))"

text \<open>Body of the loop over \<open>d2\<close> in \<open>DOUBLE_cdist_ratio\<close>.\<close>

definition cdist_inner ::
  "memory \<Rightarrow> LINEARIZE_DATA_t \<Rightarrow> LINEARIZE_DATA_t \<Rightarrow> LINEARIZE_DATA_t \<Rightarrow> LINEARIZE_DATA_t
    \<Rightarrow> npy_intp \<Rightarrow> npy_intp \<Rightarrow> int \<Rightarrow> int
    \<Rightarrow> npy_intp \<Rightarrow> int \<times> int \<times> double \<times> double \<Rightarrow> int \<times> int \<times> double \<times> double" where
  "cdist_inner mem num_fr_in num_to_in den_fr_in den_to_in stride_num_to_d stride_den_to_d
      ip_num_fr ip_den_fr d2 =
     (\<lambda>(ip_num_to, ip_den_to, dr).
        let numerator = DOUBLE_dist mem ip_num_fr ip_num_to d_zero num_fr_in num_to_in;
            denominator = DOUBLE_dist mem ip_den_fr ip_den_to d_zero den_fr_in den_to_in;
            ratio = fdiv numerator denominator
        in (ip_num_to + stride_num_to_d, ip_den_to + stride_den_to_d, ratio_update ratio dr))"

text \<open>Body of the loop over \<open>d1\<close>: the to-pointers restart at \<open>args[1]\<close> and \<open>args[3]\<close>.\<close>

definition cdist_outer ::
  "memory \<Rightarrow> LINEARIZE_DATA_t \<Rightarrow> LINEARIZE_DATA_t \<Rightarrow> LINEARIZE_DATA_t \<Rightarrow> LINEARIZE_DATA_t
    \<Rightarrow> npy_intp \<Rightarrow> npy_intp \<Rightarrow> npy_intp \<Rightarrow> npy_intp \<Rightarrow> npy_intp \<Rightarrow> int list
    \<Rightarrow> npy_intp \<Rightarrow> int \<times> int \<times> double \<times> double \<Rightarrow> int \<times> int \<times> double \<times> double" where
  "cdist_outer mem num_fr_in num_to_in den_fr_in den_to_in len_to_d
      stride_num_fr_d stride_num_to_d stride_den_fr_d stride_den_to_d args d1 =
     (\<lambda>(ip_num_fr, ip_den_fr, dr).
        let ip_num_to = args ! 1;
            ip_den_to = args ! 3
        in case for_loop 0 len_to_d
                  (cdist_inner mem num_fr_in num_to_in den_fr_in den_to_in
                     stride_num_to_d stride_den_to_d ip_num_fr ip_den_fr)
                  (ip_num_to, ip_den_to, dr) of
             (ip_num_to', ip_den_to', dr') \<Rightarrow>
               (ip_num_fr + stride_num_fr_d, ip_den_fr + stride_den_fr_d, dr'))"

text \<open>The code between \<open>BEGIN_OUTER_LOOP_6\<close> and \<open>END_OUTER_LOOP_6\<close>.  \<open>dims\<close> is
  \<open>(len_fr_d, len_m, len_to_d, len_n)\<close> and \<open>steps\<close> the eight core strides, in the order
  the code reads them.\<close>

definition cdist_ratio_body ::
  "npy_intp \<times> npy_intp \<times> npy_intp \<times> npy_intp
    \<Rightarrow> (npy_intp \<times> npy_intp) \<times> (npy_intp \<times> npy_intp) \<times> (npy_intp \<times> npy_intp) \<times> (npy_intp \<times> npy_intp)
    \<Rightarrow> int list \<Rightarrow> memory \<Rightarrow> memory" where
  "cdist_ratio_body dims steps args mem =
     (case dims of (len_fr_d, len_m, len_to_d, len_n) \<Rightarrow>
      case steps of ((stride_num_fr_d, stride_fr_m), (stride_num_to_d, stride_to_m),
                     (stride_den_fr_d, stride_fr_n), (stride_den_to_d, stride_to_n)) \<Rightarrow>
      let num_fr_in = init_linearize_vdata len_m stride_fr_m;
          num_to_in = init_linearize_vdata len_m stride_to_m;
          den_fr_in = init_linearize_vdata len_n stride_fr_n;
          den_to_in = init_linearize_vdata len_n stride_to_n;
          ip_num_fr = args ! 0;
          ip_den_fr = args ! 2;
          op1 = args ! 4;
          op2 = args ! 5
      in case for_loop 0 len_fr_d
                (cdist_outer mem num_fr_in num_to_in den_fr_in den_to_in len_to_d
                   stride_num_fr_d stride_num_to_d stride_den_fr_d stride_den_to_d args)
                (ip_num_fr, ip_den_fr, d_inf, d_zero) of
           (ip_num_fr', ip_den_fr', dr_min, dr_max) \<Rightarrow>
             (mem(op1 := npy_sqrt dr_min))(op2 := npy_sqrt dr_max))"


section \<open>MATMUL\<close>

text \<open>
  \<open>DOUBLE_matmul\<close> reads and writes the arrays in turn (\<open>*op_z = d_zero\<close>, then
  \<open>*op_z += ...\<close>), so the memory is part of every loop state.  Innermost loop, over \<open>n\<close>:
  state \<open>(mem, ip_x, ip_y)\<close>, with \<open>op_z\<close> fixed.
\<close>

definition matmul_n_step ::
  "int \<Rightarrow> npy_intp \<Rightarrow> npy_intp \<Rightarrow> npy_intp \<Rightarrow> memory \<times> int \<times> int \<Rightarrow> memory \<times> int \<times> int" where
  "matmul_n_step op_z stride_x_n stride_y_n n =
     (\<lambda>(mem, ip_x, ip_y).
        (mem(op_z := fadd (mem op_z) (fmul (mem ip_x) (mem ip_y))),
         ip_x + stride_x_n, ip_y + stride_y_n))"

text \<open>Loop over \<open>p\<close>: state \<open>(mem, ip_x, ip_y, op_z)\<close>.\<close>

definition matmul_p_step ::
  "npy_intp \<Rightarrow> npy_intp \<Rightarrow> npy_intp \<Rightarrow> npy_intp \<Rightarrow> npy_intp \<Rightarrow> npy_intp
    \<Rightarrow> memory \<times> int \<times> int \<times> int \<Rightarrow> memory \<times> int \<times> int \<times> int" where
  "matmul_p_step len_n stride_x_n stride_y_n stride_y_p stride_z_p p =
     (\<lambda>(mem, ip_x, ip_y, op_z).
        let iback_x_n = len_n * stride_x_n;
            iback_y_n = len_n * stride_y_n
        in case for_loop 0 len_n (matmul_n_step op_z stride_x_n stride_y_n)
                  (mem(op_z := d_zero), ip_x, ip_y) of
             (mem', ip_x', ip_y') \<Rightarrow>
               (mem', ip_x' - iback_x_n, ip_y' - iback_y_n + stride_y_p, op_z + stride_z_p))"

text \<open>Loop over \<open>m\<close>.\<close>

definition matmul_m_step ::
  "npy_intp \<Rightarrow> npy_intp \<Rightarrow> npy_intp \<Rightarrow> npy_intp \<Rightarrow> npy_intp \<Rightarrow> npy_intp \<Rightarrow> npy_intp
    \<Rightarrow> npy_intp \<Rightarrow> npy_intp
    \<Rightarrow> memory \<times> int \<times> int \<times> int \<Rightarrow> memory \<times> int \<times> int \<times> int" where
  "matmul_m_step len_n len_p stride_x_m stride_x_n stride_y_n stride_y_p stride_z_m stride_z_p m =
     (\<lambda>(mem, ip_x, ip_y, op_z).
        let iback_y_p = len_p * stride_y_p;
            iback_z_p = len_p * stride_z_p
        in case for_loop 0 len_p
                  (matmul_p_step len_n stride_x_n stride_y_n stride_y_p stride_z_p)
                  (mem, ip_x, ip_y, op_z) of
             (mem', ip_x', ip_y', op_z') \<Rightarrow>
               (mem', ip_x' + stride_x_m, ip_y' - iback_y_p, op_z' - iback_z_p + stride_z_m))"

text \<open>The code between \<open>BEGIN_OUTER_LOOP_3\<close> and \<open>END_OUTER_LOOP_3\<close>.  \<open>dims\<close> is
  \<open>(len_m, len_n, len_p)\<close>; \<open>steps\<close> holds the strides of \<open>X\<close>, \<open>Y\<close> and \<open>Z\<close>.\<close>

definition matmul_body ::
  "npy_intp \<times> npy_intp \<times> npy_intp
    \<Rightarrow> (npy_intp \<times> npy_intp) \<times> (npy_intp \<times> npy_intp) \<times> (npy_intp \<times> npy_intp)
    \<Rightarrow> int list \<Rightarrow> memory \<Rightarrow> memory" where
  "matmul_body dims steps args mem =
     (case dims of (len_m, len_n, len_p) \<Rightarrow>
      case steps of ((stride_x_m, stride_x_n), (stride_y_n, stride_y_p),
                     (stride_z_m, stride_z_p)) \<Rightarrow>
      let ip_x = args ! 0;
          ip_y = args ! 1;
          op_z = args ! 2
      in case for_loop 0 len_m
                (matmul_m_step len_n len_p stride_x_m stride_x_n stride_y_n stride_y_p
                   stride_z_m stride_z_p)
                (mem, ip_x, ip_y, op_z) of
           (mem', ip_x', ip_y', op_z') \<Rightarrow> mem')"

section \<open>NORM\<close>

text \<open>Loop over \<open>n\<close>: state \<open>(ip_x, normsq)\<close>.\<close>

definition norm_step :: "memory \<Rightarrow> npy_intp \<Rightarrow> npy_intp \<Rightarrow> int \<times> double \<Rightarrow> int \<times> double" where
  "norm_step mem stride_n n =
     (\<lambda>(ip_x, normsq). (ip_x + stride_n, fadd normsq (fmul (mem ip_x) (mem ip_x))))"

text \<open>The code between \<open>BEGIN_OUTER_LOOP_2\<close> and \<open>END_OUTER_LOOP_2\<close>.\<close>

definition norm_body :: "npy_intp \<Rightarrow> npy_intp \<Rightarrow> int list \<Rightarrow> memory \<Rightarrow> memory" where
  "norm_body len_n stride_n args mem =
     (let ip_x = args ! 0;
          op_r = args ! 1
      in case for_loop 0 len_n (norm_step mem stride_n) (ip_x, d_zero) of
           (ip_x', normsq) \<Rightarrow> mem(op_r := npy_sqrt normsq))"

section \<open>The broadcasting outer-loop driver\<close>

text \<open>
  Modelled from the spec: the macros \<open>INIT_OUTER_LOOP_n\<close>, \<open>BEGIN_OUTER_LOOP_n\<close> and
  \<open>END_OUTER_LOOP_n\<close> come from \<open>gufunc_common.h\<close>, which is not among the sources.  The spec
  (4.3) describes the driver: a batch descriptor is an ordered list of batch axes, each a
  dimension size with one byte stride per operand; the driver increments the innermost
  (last) axis, and "on wraparound, subtract back to start and carry into the next axis",
  and invokes the kernel body with the current operand addresses; a zero-size batch gives
  zero invocations.
\<close>

type_synonym batch_axis = "npy_intp \<times> int list"

text \<open>Modelled from the spec: part of the missing driver macros.  Move every operand
  pointer by \<open>k\<close> steps along an axis, "initial_address + index * stride" (an operand
  without a stride on the axis stays).\<close>

fun advance :: "int list \<Rightarrow> int \<Rightarrow> int list \<Rightarrow> int list" where
  "advance [] k sts = []"
| "advance (a # args) k [] = a # args"
| "advance (a # args) k (st # sts) = (a + k * st) # advance args k sts"

text \<open>Modelled from the spec: part of the missing driver macros.  One odometer step on
  the index vector and the operand addresses, "increment innermost axis; on wraparound,
  subtract back to start and carry into the next axis"; the boolean is the carry out of
  the outermost axis.\<close>

fun odometer_step ::
  "batch_axis list \<Rightarrow> int list \<Rightarrow> int list \<Rightarrow> bool \<times> int list \<times> int list" where
  "odometer_step [] idx args = (True, [], args)"
| "odometer_step ((n, sts) # axes) [] args = (True, [], args)"
| "odometer_step ((n, sts) # axes) (i # idx) args =
     (case odometer_step axes idx args of
        (False, idx', args') \<Rightarrow> (False, i # idx', args')
      | (True, idx', args') \<Rightarrow>
          let i' = i + 1;
              args'' = advance args' 1 sts
          in if i' < n then (False, i' # idx', args'')
             else (True, 0 # idx', advance args'' (- n) sts))"

text \<open>Modelled from the spec: part of the missing driver macros.  Invoke the kernel body
  at the current addresses, step the odometer, and go on until it carries out of the
  outermost axis.  Whether this loop returns is not part of its definition.\<close>

partial_function (option) odometer_loop ::
  "batch_axis list \<Rightarrow> (int list \<Rightarrow> 's \<Rightarrow> 's) \<Rightarrow> int list \<Rightarrow> int list \<Rightarrow> 's \<Rightarrow> 's option" where
  "odometer_loop axes body idx args s =
     (case odometer_step axes idx args of
        (carry, idx', args') \<Rightarrow>
          if carry then Some (body args s)
          else odometer_loop axes body idx' args' (body args s))"

declare odometer_loop.simps [code]

text \<open>Modelled from the spec: the missing driver macros \<open>BEGIN_OUTER_LOOP_n\<close> ...
  \<open>END_OUTER_LOOP_n\<close> as a whole: "zero-size batch gives zero invocations (not an error)",
  otherwise the odometer from the all-zero index vector.\<close>

definition outer_loop ::
  "batch_axis list \<Rightarrow> (int list \<Rightarrow> 's \<Rightarrow> 's) \<Rightarrow> int list \<Rightarrow> 's \<Rightarrow> 's option" where
  "outer_loop axes body args s =
     (if list_ex (\<lambda>(n, sts). n \<le> 0) axes then Some s
      else odometer_loop axes body (map (\<lambda>ax. 0) axes) args s)"

text \<open>The four kernels: the driver around each body.  \<open>batch\<close> is the batch descriptor
  that \<open>INIT_OUTER_LOOP_n\<close> reads from the front of \<open>dimensions\<close> and \<open>steps\<close>.\<close>

definition DOUBLE_pdist_ratio ::
  "batch_axis list \<Rightarrow> npy_intp \<times> npy_intp \<times> npy_intp
    \<Rightarrow> (npy_intp \<times> npy_intp) \<times> (npy_intp \<times> npy_intp)
    \<Rightarrow> int list \<Rightarrow> memory \<Rightarrow> memory option" where
  "DOUBLE_pdist_ratio batch dims steps args mem =
     (case dims of (len_d, len_m, len_n) \<Rightarrow>
      case steps of ((stride_num_d, stride_m), (stride_den_d, stride_n)) \<Rightarrow>
        outer_loop batch
          (pdist_ratio_body len_d len_m len_n stride_num_d stride_m stride_den_d stride_n)
          args mem)"

definition DOUBLE_cdist_ratio ::
  "batch_axis list \<Rightarrow> npy_intp \<times> npy_intp \<times> npy_intp \<times> npy_intp
    \<Rightarrow> (npy_intp \<times> npy_intp) \<times> (npy_intp \<times> npy_intp) \<times> (npy_intp \<times> npy_intp) \<times> (npy_intp \<times> npy_intp)
    \<Rightarrow> int list \<Rightarrow> memory \<Rightarrow> memory option" where
  "DOUBLE_cdist_ratio batch dims steps args mem =
     outer_loop batch (cdist_ratio_body dims steps) args mem"

definition DOUBLE_matmul ::
  "batch_axis list \<Rightarrow> npy_intp \<times> npy_intp \<times> npy_intp
    \<Rightarrow> (npy_intp \<times> npy_intp) \<times> (npy_intp \<times> npy_intp) \<times> (npy_intp \<times> npy_intp)
    \<Rightarrow> int list \<Rightarrow> memory \<Rightarrow> memory option" where
  "DOUBLE_matmul batch dims steps args mem =
     outer_loop batch (matmul_body dims steps) args mem"

definition DOUBLE_norm ::
  "batch_axis list \<Rightarrow> npy_intp \<Rightarrow> npy_intp \<Rightarrow> int list \<Rightarrow> memory \<Rightarrow> memory option" where
  "DOUBLE_norm batch len_n stride_n args mem =
     outer_loop batch (norm_body len_n stride_n) args mem"


section \<open>What the kernels are to compute\<close>

text \<open>
  The quantities the description of the kernels speaks of, on array indices.
  \<open>sq_diff_sum mem X sx Y sy acc L\<close> adds to \<open>acc\<close>, coordinate after coordinate, the squared
  differences of the \<open>L\<close> coordinates of the vectors at \<open>X\<close> (stride \<open>sx\<close>) and \<open>Y\<close> (stride
  \<open>sy\<close>); from zero it is the squared Euclidean distance.
\<close>

definition sq_diff_sum ::
  "memory \<Rightarrow> int \<Rightarrow> npy_intp \<Rightarrow> int \<Rightarrow> npy_intp \<Rightarrow> double \<Rightarrow> nat \<Rightarrow> double" where
  "sq_diff_sum mem X sx Y sy acc L =
     foldl (\<lambda>a k. fadd a (fmul (fsub (mem (X + int k * sx)) (mem (Y + int k * sy)))
                               (fsub (mem (X + int k * sx)) (mem (Y + int k * sy)))))
       acc [0..<L]"

definition sq_dist :: "memory \<Rightarrow> int \<Rightarrow> npy_intp \<Rightarrow> int \<Rightarrow> npy_intp \<Rightarrow> nat \<Rightarrow> double" where
  "sq_dist mem X sx Y sy L = sq_diff_sum mem X sx Y sy d_zero L"

text \<open>The sum of the squares of the \<open>N\<close> elements of the vector at \<open>X\<close>, from zero, in
  index order.\<close>

definition sum_squares :: "memory \<Rightarrow> int \<Rightarrow> npy_intp \<Rightarrow> nat \<Rightarrow> double" where
  "sum_squares mem X sx N =
     foldl (\<lambda>a k. fadd a (fmul (mem (X + int k * sx)) (mem (X + int k * sx)))) d_zero [0..<N]"


text \<open>
  For the driver: the index vectors of a batch descriptor in row-major order (the last axis
  runs fastest), the address of each operand at an index vector, which is the initial
  address plus the sum of index times stride over the axes, and the lexicographic order
  on index vectors.
\<close>

definition batch_indices :: "batch_axis list \<Rightarrow> int list list" where
  "batch_indices axes = product_lists (map (\<lambda>(n, sts). [0..n - 1]) axes)"

fun operand_addresses :: "batch_axis list \<Rightarrow> int list \<Rightarrow> int list \<Rightarrow> int list" where
  "operand_addresses [] idx args = args"
| "operand_addresses ((n, sts) # axes) [] args = args"
| "operand_addresses ((n, sts) # axes) (i # idx) args =
     operand_addresses axes idx (advance args i sts)"

fun lex_less :: "int list \<Rightarrow> int list \<Rightarrow> bool" where
  "lex_less (x # xs) (y # ys) = (x < y \<or> (x = y \<and> lex_less xs ys))"
| "lex_less xs ys = False"

text \<open>
  The run of the odometer from a state: \<open>visits axes idx args tr idx' args'\<close> holds when the
  steps from the index vector \<open>idx\<close> and the addresses \<open>args\<close> pass through the addresses
  \<open>tr\<close>, in that order, and then carry out of the outermost axis, leaving \<open>idx'\<close> and \<open>args'\<close>.
\<close>

inductive visits ::
  "batch_axis list \<Rightarrow> int list \<Rightarrow> int list \<Rightarrow> int list list \<Rightarrow> int list \<Rightarrow> int list \<Rightarrow> bool" where
  visits_last:
    "odometer_step axes idx args = (True, idx', args') \<Longrightarrow> visits axes idx args [args] idx' args'"
| visits_step:
    "odometer_step axes idx args = (False, idx1, args1) \<Longrightarrow> visits axes idx1 args1 tr idx' args' \<Longrightarrow>
       visits axes idx args (args # tr) idx' args'"

text \<open>
  For matmul: the addresses of \<open>X[m,n]\<close>, \<open>Y[n,p]\<close> and \<open>Z[m,p]\<close>, and the value the
  description gives to the output cell \<open>(m, p)\<close>: from zero, \<open>X[m,n] * Y[n,p]\<close> added for
  \<open>n = 0\<close> up to \<open>N - 1\<close>, in that order.
\<close>

type_synonym matmul_steps =
  "(npy_intp \<times> npy_intp) \<times> (npy_intp \<times> npy_intp) \<times> (npy_intp \<times> npy_intp)"

definition x_at :: "matmul_steps \<Rightarrow> int \<Rightarrow> nat \<Rightarrow> nat \<Rightarrow> int" where
  "x_at steps x m n =
     (case steps of ((stride_x_m, stride_x_n), (stride_y_n, stride_y_p), (stride_z_m, stride_z_p)) \<Rightarrow>
        x + int m * stride_x_m + int n * stride_x_n)"

definition y_at :: "matmul_steps \<Rightarrow> int \<Rightarrow> nat \<Rightarrow> nat \<Rightarrow> int" where
  "y_at steps y n p =
     (case steps of ((stride_x_m, stride_x_n), (stride_y_n, stride_y_p), (stride_z_m, stride_z_p)) \<Rightarrow>
        y + int p * stride_y_p + int n * stride_y_n)"

definition z_at :: "matmul_steps \<Rightarrow> int \<Rightarrow> nat \<Rightarrow> nat \<Rightarrow> int" where
  "z_at steps z m p =
     (case steps of ((stride_x_m, stride_x_n), (stride_y_n, stride_y_p), (stride_z_m, stride_z_p)) \<Rightarrow>
        z + int m * stride_z_m + int p * stride_z_p)"

definition matmul_cell :: "memory \<Rightarrow> matmul_steps \<Rightarrow> int \<Rightarrow> int \<Rightarrow> nat \<Rightarrow> nat \<Rightarrow> nat \<Rightarrow> double" where
  "matmul_cell mem steps x y N m p =
     foldl (\<lambda>a n. fadd a (fmul (mem (x_at steps x m n)) (mem (y_at steps y n p)))) d_zero [0..<N]"

text \<open>An entry that multiplication by one and addition of zero give back bit for bit:
  positive zero, or a non-zero finite binary64 number.\<close>

definition plain_entry :: "double \<Rightarrow> bool" where
  "plain_entry d =
     (case d of Zero s \<Rightarrow> \<not> s | Finite q \<Rightarrow> q \<noteq> 0 \<and> round64 q = Finite q | _ \<Rightarrow> False)"

text \<open>
  The pairs \<open>(i, j)\<close> with \<open>i < j < D\<close>, in the order \<open>DOUBLE_pdist_ratio\<close> visits them, and
  the ratio of the squared distances of the points \<open>i\<close> and \<open>j\<close>: numerator-space points at
  \<open>num\<close> with \<open>M\<close> coordinates, denominator-space points at \<open>den\<close> with \<open>N\<close> coordinates.
\<close>

definition pairs_lt :: "nat \<Rightarrow> (nat \<times> nat) list" where
  "pairs_lt D = concat (map (\<lambda>i. map (Pair i) [Suc i..<D]) [0..<D - 1])"

definition pdist_ratio_at ::
  "memory \<Rightarrow> nat \<Rightarrow> nat \<Rightarrow> npy_intp \<Rightarrow> npy_intp \<Rightarrow> npy_intp \<Rightarrow> npy_intp \<Rightarrow> int \<Rightarrow> int
    \<Rightarrow> nat \<times> nat \<Rightarrow> double" where
  "pdist_ratio_at mem M N stride_num_d stride_m stride_den_d stride_n num den =
     (\<lambda>(i, j).
        fdiv (sq_dist mem (num + int i * stride_num_d) stride_m
                (num + int j * stride_num_d) stride_m M)
             (sq_dist mem (den + int i * stride_den_d) stride_n
                (den + int j * stride_den_d) stride_n N))"

text \<open>The same for \<open>DOUBLE_cdist_ratio\<close>: from-point \<open>i\<close> and to-point \<open>j\<close>, each set with
  strides of its own.\<close>

definition cdist_ratio_at ::
  "memory \<Rightarrow> nat \<Rightarrow> nat
    \<Rightarrow> (npy_intp \<times> npy_intp) \<times> (npy_intp \<times> npy_intp) \<times> (npy_intp \<times> npy_intp) \<times> (npy_intp \<times> npy_intp)
    \<Rightarrow> int \<Rightarrow> int \<Rightarrow> int \<Rightarrow> int \<Rightarrow> nat \<times> nat \<Rightarrow> double" where
  "cdist_ratio_at mem M N steps num_fr num_to den_fr den_to =
     (case steps of ((stride_num_fr_d, stride_fr_m), (stride_num_to_d, stride_to_m),
                     (stride_den_fr_d, stride_fr_n), (stride_den_to_d, stride_to_n)) \<Rightarrow>
      \<lambda>(i, j).
        fdiv (sq_dist mem (num_fr + int i * stride_num_fr_d) stride_fr_m
                (num_to + int j * stride_num_to_d) stride_to_m M)
             (sq_dist mem (den_fr + int i * stride_den_fr_d) stride_fr_n
                (den_to + int j * stride_den_to_d) stride_to_n N))"

text \<open>The running minimum, from positive infinity, and the running maximum, from zero,
  of a list of ratios.\<close>

definition track_ratios :: "double list \<Rightarrow> double \<times> double" where
  "track_ratios rs = foldl (\<lambda>dr r. ratio_update r dr) (d_inf, d_zero) rs"

text \<open>Doubles with a clear sign bit, and NaN: the values a squared distance and a ratio
  of squared distances can take.\<close>

fun nonneg :: "double \<Rightarrow> bool" where
  "nonneg NaN = True"
| "nonneg (Infty s) = (\<not> s)"
| "nonneg (Zero s) = (\<not> s)"
| "nonneg (Finite q) = (0 < q)"

section \<open>Counted loops as folds\<close>

lemma for_loop_fold:
  "for_loop (int i) n body s = fold body (map int [i..<nat n]) s"
proof (induction "nat n - i" arbitrary: i s)
  case 0
  then have "\<not> int i < n" by linarith
  moreover from 0 have "[i..<nat n] = []" by simp
  ultimately show ?case by (subst for_loop.simps) simp
next
  case (Suc k)
  then have lt: "int i < n" and lt': "i < nat n" by linarith+
  have "for_loop (int i) n body s = for_loop (int (Suc i)) n body (body (int i) s)"
    using lt by (subst for_loop.simps) (simp add: add.commute)
  also have "\<dots> = fold body (map int [Suc i..<nat n]) (body (int i) s)"
    using Suc.hyps by (intro Suc.hyps(1)) linarith
  also have "\<dots> = fold body (map int [i..<nat n]) s"
    using lt' by (simp add: upt_conv_Cons)
  finally show ?case .
qed

lemma for_loop_fold0:
  "for_loop 0 n body s = fold body (map int [0..<nat n]) s"
  using for_loop_fold [of 0 n body s] by simp

section \<open>Some binary64 roundings\<close>

lemma round64_1: "round64 1 = Finite 1"
  by code_simp

lemma round64_9: "round64 9 = Finite 9"
  by code_simp

lemma round64_10: "round64 10 = Finite 10"
  by code_simp

lemma round64_16: "round64 16 = Finite 16"
  by code_simp

lemma round64_25: "round64 25 = Finite 25"
  by code_simp

lemma sqrt64_1: "sqrt64 1 = Finite 1"
  by code_simp

lemma sqrt64_25: "sqrt64 25 = Finite 5"
  by code_simp

section \<open>The distance kernel\<close>

lemma dist_step_fold:
  "fold (dist_step mem x_in y_in) (map int [0..<L]) (X, Y, acc) =
     (X + int L * strides x_in, Y + int L * strides y_in,
      sq_diff_sum mem X (strides x_in) Y (strides y_in) acc L)"
  by (induction L) (simp_all add: sq_diff_sum_def dist_step_def Let_def distrib_right add.assoc)

lemma DOUBLE_dist_eq:
  "DOUBLE_dist mem X Y dist0 x_in y_in =
     sq_diff_sum mem X (strides x_in) Y (strides y_in) dist0 (nat (len x_in))"
  by (simp add: DOUBLE_dist_def DOUBLE_dist_state_def for_loop_fold0 dist_step_fold)

lemma pdist_inner_eq:
  "pdist_inner mem (init_linearize_vdata len_m stride_m) (init_linearize_vdata len_n stride_n)
      stride_num_d stride_den_d ip_num_fr ip_den_fr d2 (ip_num_to, ip_den_to, dr) =
     (ip_num_to + stride_num_d, ip_den_to + stride_den_d,
      ratio_update
        (fdiv (sq_dist mem ip_num_fr stride_m ip_num_to stride_m (nat len_m))
              (sq_dist mem ip_den_fr stride_n ip_den_to stride_n (nat len_n))) dr)"
  by (simp add: pdist_inner_def DOUBLE_dist_eq init_linearize_vdata_def sq_dist_def)

lemma cdist_inner_eq:
  "cdist_inner mem (init_linearize_vdata len_m stride_fr_m) (init_linearize_vdata len_m stride_to_m)
      (init_linearize_vdata len_n stride_fr_n) (init_linearize_vdata len_n stride_to_n)
      stride_num_to_d stride_den_to_d ip_num_fr ip_den_fr d2 (ip_num_to, ip_den_to, dr) =
     (ip_num_to + stride_num_to_d, ip_den_to + stride_den_to_d,
      ratio_update
        (fdiv (sq_dist mem ip_num_fr stride_fr_m ip_num_to stride_to_m (nat len_m))
              (sq_dist mem ip_den_fr stride_fr_n ip_den_to stride_to_n (nat len_n))) dr)"
  by (simp add: cdist_inner_def DOUBLE_dist_eq init_linearize_vdata_def sq_dist_def)

text \<open>
  C10: \<open>DOUBLE_dist\<close>, for a vector length \<open>L\<close>, leaves in the accumulator its initial
  value with the \<open>L\<close> squared coordinate differences added to it, one after the other: it
  adds into the accumulator of the caller and does not overwrite it.  What comes out is
  the squared distance when the accumulator starts from zero, which is how the two calls
  in \<open>DOUBLE_pdist_ratio\<close> and the two calls in \<open>DOUBLE_cdist_ratio\<close> start it.
\<close>

theorem DOUBLE_dist_adds_into_accumulator:
  "DOUBLE_dist mem X Y dist0 x_in y_in =
     sq_diff_sum mem X (strides x_in) Y (strides y_in) dist0 (nat (len x_in))
   \<and> DOUBLE_dist mem X Y d_zero x_in y_in =
     sq_dist mem X (strides x_in) Y (strides y_in) (nat (len x_in))
   \<and> pdist_inner mem (init_linearize_vdata len_m stride_m) (init_linearize_vdata len_n stride_n)
        stride_num_d stride_den_d ip_num_fr ip_den_fr d2 (ip_num_to, ip_den_to, dr) =
      (ip_num_to + stride_num_d, ip_den_to + stride_den_d,
       ratio_update
         (fdiv (sq_dist mem ip_num_fr stride_m ip_num_to stride_m (nat len_m))
               (sq_dist mem ip_den_fr stride_n ip_den_to stride_n (nat len_n))) dr)
   \<and> cdist_inner mem (init_linearize_vdata len_m stride_fr_m)
        (init_linearize_vdata len_m stride_to_m) (init_linearize_vdata len_n stride_fr_n)
        (init_linearize_vdata len_n stride_to_n)
        stride_num_to_d stride_den_to_d ip_num_fr ip_den_fr d2 (ip_num_to, ip_den_to, dr) =
      (ip_num_to + stride_num_to_d, ip_den_to + stride_den_to_d,
       ratio_update
         (fdiv (sq_dist mem ip_num_fr stride_fr_m ip_num_to stride_to_m (nat len_m))
               (sq_dist mem ip_den_fr stride_fr_n ip_den_to stride_to_n (nat len_n))) dr)"
  by (simp add: DOUBLE_dist_eq sq_dist_def pdist_inner_eq cdist_inner_eq)

text \<open>An accumulator that starts at 1: the vectors \<open>(3)\<close> and \<open>(0)\<close> give 10, not 9.\<close>

theorem DOUBLE_dist_adds_into_accumulator_witness:
  "DOUBLE_dist (\<lambda>a. if a = 0 then Finite 3 else Zero False) 0 8 (Finite 1)
     (init_linearize_vdata 1 8) (init_linearize_vdata 1 8) = Finite 10"
proof -
  have "DOUBLE_dist (\<lambda>a. if a = 0 then Finite 3 else Zero False) 0 8 (Finite 1)
          (init_linearize_vdata 1 8) (init_linearize_vdata 1 8) =
        sq_diff_sum (\<lambda>a. if a = 0 then Finite 3 else Zero False) 0 8 8 8 (Finite 1) 1"
    using DOUBLE_dist_adds_into_accumulator
      [of "\<lambda>a. if a = 0 then Finite 3 else Zero False" 0 8 "Finite 1"
          "init_linearize_vdata 1 8" "init_linearize_vdata 1 8"]
    by (simp add: init_linearize_vdata_def)
  also have "\<dots> = Finite 10"
    by (simp add: sq_diff_sum_def fsub_def round64_9 round64_10)
  finally show ?thesis .
qed

section \<open>The norm\<close>

lemma norm_step_fold:
  "fold (norm_step mem stride_n) (map int [0..<N]) (X, acc) =
     (X + int N * stride_n,
      foldl (\<lambda>a k. fadd a (fmul (mem (X + int k * stride_n)) (mem (X + int k * stride_n))))
        acc [0..<N])"
  by (induction N) (simp_all add: norm_step_def distrib_right add.assoc)

lemma norm_body_eq:
  "norm_body len_n stride_n [x, r] mem =
     mem(r := npy_sqrt (sum_squares mem x stride_n (nat len_n)))"
  by (simp add: norm_body_def for_loop_fold0 norm_step_fold sum_squares_def)

text \<open>
  C7: for a vector \<open>X\<close> of any length \<open>N \<ge> 0\<close>, norm stores the square root of the sum of
  the squares of the \<open>N\<close> elements; for the empty vector it stores exactly (positive) zero.
\<close>

theorem norm_sqrt_of_sum_of_squares:
  "norm_body (int N) stride_n [x, r] mem =
     mem(r := npy_sqrt (sum_squares mem x stride_n N))
   \<and> norm_body 0 stride_n [x, r] mem = mem(r := Zero False)"
  by (simp add: norm_body_eq sum_squares_def d_zero_def)

text \<open>The vector \<open>(3, 4)\<close> has norm 5.\<close>

theorem norm_sqrt_of_sum_of_squares_witness:
  "norm_body 2 8 [0, 16] (\<lambda>a. if a = 0 then Finite 3 else Finite 4) 16 = Finite 5"
proof -
  have "norm_body (int 2) 8 [0, 16] (\<lambda>a. if a = 0 then Finite 3 else Finite 4) 16 =
        npy_sqrt (sum_squares (\<lambda>a. if a = 0 then Finite 3 else Finite 4) 0 8 2)"
    using norm_sqrt_of_sum_of_squares
      [of 2 8 0 16 "\<lambda>a. if a = 0 then Finite 3 else Finite 4"]
    by simp
  also have "\<dots> = Finite 5"
    by (simp add: sum_squares_def d_zero_def round64_9 round64_16 round64_25 sqrt64_25
        eval_nat_numeral)
  finally show ?thesis by simp
qed

section \<open>The two ratio kernels as folds over pairs of points\<close>

lemma foldl_concat_map:
  "foldl f a (concat (map g xs)) = foldl (\<lambda>a x. foldl f a (g x)) a xs"
  by (induction xs arbitrary: a) simp_all

lemma for_loop_fold_Suc:
  "for_loop (int i + 1) n body s = fold body (map int [Suc i..<nat n]) s"
  using for_loop_fold [of "Suc i" n body s] by (simp add: add.commute)

lemma pdist_inner_fold:
  "a \<le> b \<Longrightarrow>
   fold (pdist_inner mem (init_linearize_vdata len_m stride_m) (init_linearize_vdata len_n stride_n)
           stride_num_d stride_den_d ip_num_fr ip_den_fr)
     (map int [a..<b]) (num + int a * stride_num_d, den + int a * stride_den_d, dr) =
   (num + int b * stride_num_d, den + int b * stride_den_d,
    foldl (\<lambda>dr j. ratio_update
              (fdiv (sq_dist mem ip_num_fr stride_m (num + int j * stride_num_d) stride_m (nat len_m))
                    (sq_dist mem ip_den_fr stride_n (den + int j * stride_den_d) stride_n (nat len_n)))
              dr) dr [a..<b])"
proof (induction b)
  case 0
  then show ?case by simp
next
  case (Suc b)
  show ?case
  proof (cases "a \<le> b")
    case True
    then show ?thesis
      using Suc.IH by (simp add: pdist_inner_eq distrib_right add.assoc)
  next
    case False
    with Suc.prems have "a = Suc b" by simp
    then show ?thesis by simp
  qed
qed

lemma pdist_outer_eq:
  "Suc i \<le> nat len_d \<Longrightarrow>
   pdist_outer mem (init_linearize_vdata len_m stride_m) (init_linearize_vdata len_n stride_n)
      len_d stride_num_d stride_den_d (int i)
      (num + int i * stride_num_d, den + int i * stride_den_d, dr) =
   (num + int (Suc i) * stride_num_d, den + int (Suc i) * stride_den_d,
    foldl (\<lambda>dr j. ratio_update
             (pdist_ratio_at mem (nat len_m) (nat len_n) stride_num_d stride_m stride_den_d stride_n
                num den (i, j)) dr)
      dr [Suc i..<nat len_d])"
proof -
  assume le: "Suc i \<le> nat len_d"
  have eq: "num + int i * stride_num_d + stride_num_d = num + int (Suc i) * stride_num_d"
    "den + int i * stride_den_d + stride_den_d = den + int (Suc i) * stride_den_d"
    by (simp_all add: distrib_right)
  show ?thesis
    unfolding pdist_outer_def Let_def prod.case for_loop_fold_Suc eq
    using pdist_inner_fold [OF le, of mem len_m stride_m len_n stride_n stride_num_d stride_den_d
        "num + int i * stride_num_d" "den + int i * stride_den_d" num den dr]
    by (simp add: pdist_ratio_at_def)
qed

lemma pdist_outer_fold:
  "K \<le> nat len_d - 1 \<Longrightarrow>
   fold (pdist_outer mem (init_linearize_vdata len_m stride_m)
           (init_linearize_vdata len_n stride_n) len_d stride_num_d stride_den_d)
     (map int [0..<K]) (num, den, dr) =
   (num + int K * stride_num_d, den + int K * stride_den_d,
    foldl (\<lambda>dr i. foldl (\<lambda>dr j. ratio_update
             (pdist_ratio_at mem (nat len_m) (nat len_n) stride_num_d stride_m stride_den_d stride_n
                num den (i, j)) dr)
             dr [Suc i..<nat len_d]) dr [0..<K])"
proof (induction K)
  case 0
  then show ?case by simp
next
  case (Suc K)
  then have le: "Suc K \<le> nat len_d" and K: "K \<le> nat len_d - 1" by simp_all
  show ?case
    using Suc.IH [OF K] pdist_outer_eq [OF le]
    by simp
qed

lemma pdist_ratio_body_eq:
  "pdist_ratio_body len_d len_m len_n stride_num_d stride_m stride_den_d stride_n
     [num, den, op1, op2] mem =
   (case track_ratios
           (map (pdist_ratio_at mem (nat len_m) (nat len_n) stride_num_d stride_m stride_den_d
                   stride_n num den)
              (pairs_lt (nat len_d))) of
      (dr_min, dr_max) \<Rightarrow> (mem(op1 := npy_sqrt dr_min))(op2 := npy_sqrt dr_max))"
proof -
  have n: "nat (len_d - 1) = nat len_d - 1" by simp
  show ?thesis
    unfolding pdist_ratio_body_def Let_def for_loop_fold0 n
    by (simp add: pdist_outer_fold track_ratios_def pairs_lt_def foldl_map foldl_concat_map
        del: upt_Suc)
qed

lemma cdist_inner_fold:
  "fold (cdist_inner mem (init_linearize_vdata len_m stride_fr_m)
           (init_linearize_vdata len_m stride_to_m) (init_linearize_vdata len_n stride_fr_n)
           (init_linearize_vdata len_n stride_to_n)
           stride_num_to_d stride_den_to_d ip_num_fr ip_den_fr)
     (map int [0..<b]) (num_to, den_to, dr) =
   (num_to + int b * stride_num_to_d, den_to + int b * stride_den_to_d,
    foldl (\<lambda>dr j. ratio_update
              (fdiv (sq_dist mem ip_num_fr stride_fr_m (num_to + int j * stride_num_to_d)
                       stride_to_m (nat len_m))
                    (sq_dist mem ip_den_fr stride_fr_n (den_to + int j * stride_den_to_d)
                       stride_to_n (nat len_n)))
              dr) dr [0..<b])"
  by (induction b) (simp_all add: cdist_inner_eq distrib_right add.assoc)

lemma cdist_outer_eq:
  "cdist_outer mem (init_linearize_vdata len_m stride_fr_m)
      (init_linearize_vdata len_m stride_to_m) (init_linearize_vdata len_n stride_fr_n)
      (init_linearize_vdata len_n stride_to_n) len_to_d
      stride_num_fr_d stride_num_to_d stride_den_fr_d stride_den_to_d
      [num_fr, num_to, den_fr, den_to, op1, op2] (int i)
      (num_fr + int i * stride_num_fr_d, den_fr + int i * stride_den_fr_d, dr) =
   (num_fr + int (Suc i) * stride_num_fr_d, den_fr + int (Suc i) * stride_den_fr_d,
    foldl (\<lambda>dr j. ratio_update
             (cdist_ratio_at mem (nat len_m) (nat len_n)
                ((stride_num_fr_d, stride_fr_m), (stride_num_to_d, stride_to_m),
                 (stride_den_fr_d, stride_fr_n), (stride_den_to_d, stride_to_n))
                num_fr num_to den_fr den_to (i, j)) dr)
      dr [0..<nat len_to_d])"
  by (simp add: cdist_outer_def for_loop_fold0 cdist_inner_fold cdist_ratio_at_def
      distrib_right add.assoc)

lemma cdist_outer_fold:
  "fold (cdist_outer mem (init_linearize_vdata len_m stride_fr_m)
      (init_linearize_vdata len_m stride_to_m) (init_linearize_vdata len_n stride_fr_n)
      (init_linearize_vdata len_n stride_to_n) len_to_d
      stride_num_fr_d stride_num_to_d stride_den_fr_d stride_den_to_d
      [num_fr, num_to, den_fr, den_to, op1, op2])
     (map int [0..<K]) (num_fr, den_fr, dr) =
   (num_fr + int K * stride_num_fr_d, den_fr + int K * stride_den_fr_d,
    foldl (\<lambda>dr i. foldl (\<lambda>dr j. ratio_update
             (cdist_ratio_at mem (nat len_m) (nat len_n)
                ((stride_num_fr_d, stride_fr_m), (stride_num_to_d, stride_to_m),
                 (stride_den_fr_d, stride_fr_n), (stride_den_to_d, stride_to_n))
                num_fr num_to den_fr den_to (i, j)) dr)
             dr [0..<nat len_to_d]) dr [0..<K])"
proof (induction K)
  case 0
  then show ?case by simp
next
  case (Suc K)
  show ?case
    using Suc.IH cdist_outer_eq [of mem len_m stride_fr_m stride_to_m len_n stride_fr_n stride_to_n
      len_to_d stride_num_fr_d stride_num_to_d stride_den_fr_d stride_den_to_d
      num_fr num_to den_fr den_to op1 op2 K]
    by simp
qed

lemma cdist_ratio_body_eq:
  "cdist_ratio_body (len_fr_d, len_m, len_to_d, len_n)
     ((stride_num_fr_d, stride_fr_m), (stride_num_to_d, stride_to_m),
      (stride_den_fr_d, stride_fr_n), (stride_den_to_d, stride_to_n))
     [num_fr, num_to, den_fr, den_to, op1, op2] mem =
   (case track_ratios
           (map (cdist_ratio_at mem (nat len_m) (nat len_n)
                   ((stride_num_fr_d, stride_fr_m), (stride_num_to_d, stride_to_m),
                    (stride_den_fr_d, stride_fr_n), (stride_den_to_d, stride_to_n))
                   num_fr num_to den_fr den_to)
              (List.product [0..<nat len_fr_d] [0..<nat len_to_d])) of
      (dr_min, dr_max) \<Rightarrow> (mem(op1 := npy_sqrt dr_min))(op2 := npy_sqrt dr_max))"
proof -
  have p: "List.product xs ys = concat (map (\<lambda>x. map (Pair x) ys) xs)" for xs :: "nat list" and ys :: "nat list"
    by (induction xs) simp_all
  show ?thesis
    unfolding cdist_ratio_body_def Let_def for_loop_fold0 prod.case
    by (simp add: cdist_outer_fold track_ratios_def p foldl_map foldl_concat_map
        del: upt_Suc)
qed

section \<open>Facts on binary64 arithmetic\<close>

lemma pow2_pos: "0 < pow2 e"
  by (simp add: pow2_def)

text \<open>The helpers of the rounding do what their names say: \<open>floor_log2\<close> is the binary
  exponent, \<open>isqrt\<close> the integer square root, \<open>round_half_even\<close> a nearest integer.\<close>

lemma bitlen_nonneg: "0 \<le> bitlen n"
proof (induction n rule: bitlen.induct)
  case (1 n)
  then show ?case by (subst bitlen.simps) simp
qed

lemma bitlen_pos: "0 < n \<Longrightarrow> 0 < bitlen n"
  using bitlen_nonneg [of "n div 2"] by (subst bitlen.simps) simp

lemma bitlen_bounds:
  "0 < n \<Longrightarrow> 2 ^ nat (bitlen n - 1) \<le> n \<and> n < 2 ^ nat (bitlen n)"
proof (induction n rule: bitlen.induct)
  case (1 n)
  show ?case
  proof (cases "n = 1")
    case True
    have "bitlen 1 = 1" by code_simp
    with True show ?thesis by simp
  next
    case False
    with 1 have h: "0 < n div 2" by simp
    have b: "bitlen n = 1 + bitlen (n div 2)" using 1(2) by (subst bitlen.simps) simp
    from 1(1) h 1(2) have ih: "2 ^ nat (bitlen (n div 2) - 1) \<le> n div 2"
      "n div 2 < 2 ^ nat (bitlen (n div 2))" by simp_all
    have p: "0 < bitlen (n div 2)" using h by (rule bitlen_pos)
    then have e: "nat (bitlen (n div 2)) = Suc (nat (bitlen (n div 2) - 1))" by simp
    have "2 ^ nat (bitlen n - 1) \<le> n"
      using ih(1) unfolding b by (simp add: e) 
    moreover have "n < 2 ^ nat (bitlen n)"
      using ih(2) p unfolding b by (simp add: nat_add_distrib)
    ultimately show ?thesis by simp
  qed
qed


lemma pow2_powi: "pow2 e = 2 powi e"
  by (simp add: pow2_def power_int_def field_simps)

lemma pow2_add: "pow2 (a + b) = pow2 a * pow2 b"
  by (simp add: pow2_powi power_int_add)

lemma pow2_diff: "pow2 (a - b) = pow2 a / pow2 b"
  by (simp add: pow2_powi power_int_diff)

lemma bitlen_bounds_rat:
  assumes "0 < n"
  shows "pow2 (bitlen n - 1) \<le> of_int n" "of_int n < pow2 (bitlen n)"
proof -
  from bitlen_bounds [OF assms]
  have a: "2 ^ nat (bitlen n - 1) \<le> n" and b: "n < 2 ^ nat (bitlen n)" by simp_all
  have p: "0 < bitlen n" using assms by (rule bitlen_pos)
  from a have "(of_int (2 ^ nat (bitlen n - 1)) :: rat) \<le> of_int n" by (simp only: of_int_le_iff)
  then show "pow2 (bitlen n - 1) \<le> of_int n" using p by (simp add: pow2_def)
  from b have "(of_int n :: rat) < of_int (2 ^ nat (bitlen n))" by (simp only: of_int_less_iff)
  then show "of_int n < pow2 (bitlen n)" using p by (simp add: pow2_def)
qed

lemma floor_log2_bounds:
  assumes "0 < a"
  shows "pow2 (floor_log2 a) \<le> a \<and> a < pow2 (floor_log2 a + 1)"
proof -
  obtain p q where pq: "quotient_of a = (p, q)" by (cases "quotient_of a")
  then have q: "0 < q" by (rule quotient_of_denom_pos)
  have a: "a = of_int p / of_int q" using pq by (rule quotient_of_div)
  have p: "0 < p" using assms q a by (simp add: zero_less_divide_iff)
  note bp = bitlen_bounds_rat [OF p] and bq = bitlen_bounds_rat [OF q]
  let ?k = "bitlen p - bitlen q"
  have q': "(0::rat) < of_int q" and p': "(0::rat) < of_int p" using p q by simp_all
  have "pow2 (?k - 1) = pow2 (bitlen p - 1) / pow2 (bitlen q)"
    using pow2_diff [of "bitlen p - 1" "bitlen q"] by (simp add: algebra_simps)
  also have "\<dots> \<le> of_int p / pow2 (bitlen q)"
    using bp(1) by (simp add: divide_right_mono pow2_pos less_imp_le)
  also have "\<dots> \<le> of_int p / of_int q"
    using bq(2) p' q' by (simp add: frac_le)
  finally have lo: "pow2 (?k - 1) \<le> a" by (simp add: a)
  have "a < pow2 (bitlen p) / of_int q"
    using bp(2) q' by (simp add: a divide_strict_right_mono)
  also have "\<dots> \<le> pow2 (bitlen p) / pow2 (bitlen q - 1)"
    using bq(1) by (simp add: frac_le pow2_pos less_imp_le)
  also have "\<dots> = pow2 (?k + 1)"
    using pow2_diff [of "bitlen p" "bitlen q - 1"] by (simp add: algebra_simps)
  finally have hi: "a < pow2 (?k + 1)" .
  show ?thesis
    using lo hi by (simp add: floor_log2_def pq Let_def not_le)
qed

lemma isqrt_bounds:
  "0 \<le> n \<Longrightarrow> 0 \<le> isqrt n \<and> isqrt n * isqrt n \<le> n \<and> n < (isqrt n + 1) * (isqrt n + 1)"
proof (induction n rule: isqrt.induct)
  case (1 n)
  show ?case
  proof (cases "n < 2")
    case True
    with 1(2) have "n = 0 \<or> n = 1" by auto
    moreover have "isqrt 0 = 0" "isqrt 1 = 1" by code_simp+
    ultimately show ?thesis by auto
  next
    case False
    define r where "r = isqrt (n div 4)"
    from 1(1) [OF False] 1(2)
    have ih: "0 \<le> r" "r * r \<le> n div 4" "n div 4 < (r + 1) * (r + 1)"
      by (simp_all add: r_def)
    have e: "isqrt n = (if (2 * r + 1) * (2 * r + 1) \<le> n then 2 * r + 1 else 2 * r)"
      using False by (subst isqrt.simps) (simp add: r_def Let_def)
    have lo: "(2 * r) * (2 * r) \<le> n"
    proof -
      have "4 * (r * r) \<le> 4 * (n div 4)" using ih(2) by simp
      also have "\<dots> \<le> n" by simp
      finally show ?thesis by (simp add: algebra_simps)
    qed
    have hi: "n < (2 * r + 2) * (2 * r + 2)"
    proof -
      have "n div 4 + 1 \<le> (r + 1) * (r + 1)" using ih(3) by simp
      then have "4 * (n div 4) + 4 \<le> 4 * ((r + 1) * (r + 1))" by simp
      moreover have "n < 4 * (n div 4) + 4" by presburger
      ultimately show ?thesis by (simp add: algebra_simps)
    qed
    show ?thesis
      using lo hi ih(1) by (auto simp: e algebra_simps not_le)
  qed
qed


lemma round_half_even_nearest: "\<bar>of_int (round_half_even x) - x\<bar> \<le> 1 / 2"
proof -
  define n where "n = \<lfloor>x\<rfloor>"
  have b: "of_int n \<le> x" "x < of_int n + 1" unfolding n_def by linarith+
  consider "x - of_int n < 1 / 2" | "1 / 2 < x - of_int n" | "x - of_int n = 1 / 2"
    by linarith
  then show ?thesis
  proof cases
    case 1
    then have "round_half_even x = n" by (simp add: round_half_even_def n_def)
    with b 1 show ?thesis by simp
  next
    case 2
    then have "round_half_even x = n + 1" by (simp add: round_half_even_def n_def)
    with b 2 show ?thesis by simp
  next
    case 3
    then have "round_half_even x = n \<or> round_half_even x = n + 1"
      by (simp add: round_half_even_def n_def Let_def)
    with b 3 show ?thesis by auto
  qed
qed

lemma round_half_even_nonneg: "0 \<le> x \<Longrightarrow> 0 \<le> round_half_even x"
  by (simp add: round_half_even_def Let_def)

lemma nonneg_round_mag: "0 \<le> a \<Longrightarrow> nonneg (round_mag False a)"
proof -
  assume a: "0 \<le> a"
  define ulp where "ulp = pow2 (max (floor_log2 a) (- 1022) - 52)"
  have u: "0 < ulp" by (simp add: ulp_def pow2_pos)
  have "0 \<le> a / ulp" using a u by simp
  then have "0 \<le> round_half_even (a / ulp)" by (rule round_half_even_nonneg)
  then have "0 \<le> (of_int (round_half_even (a / ulp)) :: rat) * ulp" using u by simp
  then show ?thesis
    unfolding round_mag_def Let_def ulp_def [symmetric]
    by (auto simp: less_le)
qed

lemma nonneg_round64: "0 \<le> q \<Longrightarrow> nonneg (round64 q)"
  by (simp add: round64_def nonneg_round_mag)

lemma fneg_fneg [simp]: "fneg (fneg x) = x"
  by (cases x) simp_all

lemma round_mag_neg: "round_mag True a = fneg (round_mag False a)"
  by (simp add: round_mag_def Let_def)

lemma round64_minus: "round64 (- q) = (if q = 0 then Zero False else fneg (round64 q))"
  by (simp add: round64_def round_mag_neg)

lemma round64_diff_swap:
  "round64 (b - a) = (if a = b then Zero False else fneg (round64 (a - b)))"
  using round64_minus [of "a - b"] by simp

lemma nonneg_fmul_self: "nonneg (fmul x x)"
  by (cases x) (simp_all add: nonneg_round64)

lemma nonneg_fadd: "nonneg x \<Longrightarrow> nonneg y \<Longrightarrow> nonneg (fadd x y)"
  by (cases x; cases y) (simp_all add: nonneg_round64)

lemma nonneg_fdiv: "nonneg x \<Longrightarrow> nonneg y \<Longrightarrow> nonneg (fdiv x y)"
  by (cases x; cases y) (simp_all add: nonneg_round64)

lemma fmul_fneg_fneg: "fmul (fneg x) (fneg x) = fmul x x"
  by (cases x) simp_all

lemma sq_round64_swap:
  "fmul (round64 (a - b)) (round64 (a - b)) = fmul (round64 (b - a)) (round64 (b - a))"
  by (cases "a = b") (simp_all add: round64_diff_swap [of a b] fmul_fneg_fneg)

lemma sq_diff_sym: "fmul (fsub x y) (fsub x y) = fmul (fsub y x) (fsub y x)"
  by (cases x; cases y) (simp_all add: fsub_def sq_round64_swap)

lemma fsub_self: "fsub x x = Zero False \<or> fsub x x = NaN"
  by (cases x) (auto simp: fsub_def round64_def)

lemma flt_trans: "flt x y \<Longrightarrow> flt y z \<Longrightarrow> flt x z"
  by (auto simp: flt_def)

lemma flt_irrefl [simp]: "\<not> flt x x"
  by (simp add: flt_def)

lemma flt_NaN [simp]: "\<not> flt NaN x" "\<not> flt x NaN"
  by (simp_all add: flt_def)

lemma flt_trichotomy:
  "nonneg x \<Longrightarrow> nonneg y \<Longrightarrow> x \<noteq> NaN \<Longrightarrow> y \<noteq> NaN \<Longrightarrow> flt x y \<or> x = y \<or> flt y x"
  by (cases x; cases y) (auto simp: flt_def)

lemma not_flt_inf [simp]: "\<not> flt (Infty False) x"
  by (cases x) (auto simp: flt_def)

lemma not_flt_zero: "nonneg x \<Longrightarrow> \<not> flt x (Zero False)"
  by (cases x) (auto simp: flt_def)

lemma fdiv_self: "nonneg d \<Longrightarrow> fdiv d d = (case d of Finite q \<Rightarrow> Finite 1 | _ \<Rightarrow> NaN)"
  by (cases d) (auto simp: round64_1)

section \<open>Squared distances\<close>

lemma nonneg_sq_diff_sum: "nonneg acc \<Longrightarrow> nonneg (sq_diff_sum mem X sx Y sy acc L)"
  by (induction L) (simp_all add: sq_diff_sum_def nonneg_fadd nonneg_fmul_self)

lemma nonneg_sq_dist: "nonneg (sq_dist mem X sx Y sy L)"
  by (simp add: sq_dist_def d_zero_def nonneg_sq_diff_sum)

lemma sq_diff_sum_sym: "sq_diff_sum mem X sx Y sy acc L = sq_diff_sum mem Y sy X sx acc L"
  by (induction L) (simp_all add: sq_diff_sum_def sq_diff_sym)

lemma sq_dist_sym: "sq_dist mem X sx Y sy L = sq_dist mem Y sy X sx L"
  by (simp add: sq_dist_def sq_diff_sum_sym)

lemma sq_diff_sum_self:
  "acc = Zero False \<or> acc = NaN \<Longrightarrow>
   sq_diff_sum mem X sx X sx acc L = Zero False \<or> sq_diff_sum mem X sx X sx acc L = NaN"
proof (induction L)
  case 0
  then show ?case by (simp add: sq_diff_sum_def)
next
  case (Suc L)
  have "sq_diff_sum mem X sx X sx acc (Suc L) =
        fadd (sq_diff_sum mem X sx X sx acc L)
          (fmul (fsub (mem (X + int L * sx)) (mem (X + int L * sx)))
                (fsub (mem (X + int L * sx)) (mem (X + int L * sx))))"
    by (simp add: sq_diff_sum_def)
  then show ?case
    using Suc.IH [OF Suc.prems] fsub_self [of "mem (X + int L * sx)"]
    by auto
qed

lemma sq_dist_self: "sq_dist mem X sx X sx L = Zero False \<or> sq_dist mem X sx X sx L = NaN"
  by (simp add: sq_dist_def d_zero_def sq_diff_sum_self)

lemma sq_diff_sum_cong:
  "(\<And>k. k < L \<Longrightarrow> mem (X + int k * sx) = mem (X' + int k * sx')) \<Longrightarrow>
   (\<And>k. k < L \<Longrightarrow> mem (Y + int k * sy) = mem (Y' + int k * sy')) \<Longrightarrow>
   sq_diff_sum mem X sx Y sy acc L = sq_diff_sum mem X' sx' Y' sy' acc L"
  by (induction L) (simp_all add: sq_diff_sum_def)

section \<open>Running minimum and maximum\<close>

lemma track_ratios_snoc:
  "track_ratios (rs @ [r]) = ratio_update r (track_ratios rs)"
  by (simp add: track_ratios_def)

lemma ratio_update_NaN [simp]: "ratio_update NaN dr = dr"
  by (cases dr) (simp add: ratio_update_def fgt_def)

lemma track_ratios_bounds:
  "case track_ratios rs of (dr_min, dr_max) \<Rightarrow>
     (dr_min = d_inf \<or> dr_min \<in> set rs) \<and> (\<forall>r \<in> set rs. \<not> flt r dr_min) \<and>
     (dr_max = d_zero \<or> dr_max \<in> set rs) \<and> (\<forall>r \<in> set rs. \<not> fgt r dr_max)"
proof (induction rs rule: rev_induct)
  case Nil
  then show ?case by (simp add: track_ratios_def)
next
  case (snoc r rs)
  obtain mn mx where t: "track_ratios rs = (mn, mx)" by (cases "track_ratios rs")
  with snoc have ih: "mn = d_inf \<or> mn \<in> set rs" "\<forall>x \<in> set rs. \<not> flt x mn"
    "mx = d_zero \<or> mx \<in> set rs" "\<forall>x \<in> set rs. \<not> fgt x mx"
    by simp_all
  show ?case
    unfolding track_ratios_snoc t ratio_update_def prod.case
    using ih by (auto simp: fgt_def dest: flt_trans)
qed

lemma track_ratios_nonneg:
  "(\<forall>r \<in> set rs. nonneg r) \<Longrightarrow>
   (case track_ratios rs of (dr_min, dr_max) \<Rightarrow>
      nonneg dr_min \<and> dr_min \<noteq> NaN \<and> nonneg dr_max \<and> dr_max \<noteq> NaN)"
proof (induction rs rule: rev_induct)
  case Nil
  then show ?case by (simp add: track_ratios_def d_inf_def d_zero_def)
next
  case (snoc r rs)
  obtain mn mx where t: "track_ratios rs = (mn, mx)" by (cases "track_ratios rs")
  with snoc show ?case
    unfolding track_ratios_snoc t ratio_update_def prod.case
    by (auto simp: fgt_def)
qed

lemma track_ratios_cong_set:
  assumes "\<forall>r \<in> set rs. nonneg r" and "\<forall>r \<in> set rs'. nonneg r"
    and "set rs - {NaN} = set rs' - {NaN}"
  shows "track_ratios rs = track_ratios rs'"
proof -
  obtain mn mx where t: "track_ratios rs = (mn, mx)" by (cases "track_ratios rs")
  obtain mn' mx' where t': "track_ratios rs' = (mn', mx')" by (cases "track_ratios rs'")
  from track_ratios_bounds [of rs] t
  have b: "mn = d_inf \<or> mn \<in> set rs" "\<forall>x \<in> set rs. \<not> flt x mn"
    "mx = d_zero \<or> mx \<in> set rs" "\<forall>x \<in> set rs. \<not> flt mx x"
    by (simp_all add: fgt_def)
  from track_ratios_bounds [of rs'] t'
  have b': "mn' = d_inf \<or> mn' \<in> set rs'" "\<forall>x \<in> set rs'. \<not> flt x mn'"
    "mx' = d_zero \<or> mx' \<in> set rs'" "\<forall>x \<in> set rs'. \<not> flt mx' x"
    by (simp_all add: fgt_def)
  from track_ratios_nonneg [OF assms(1)] t
  have n: "nonneg mn" "mn \<noteq> NaN" "nonneg mx" "mx \<noteq> NaN" by simp_all
  from track_ratios_nonneg [OF assms(2)] t'
  have n': "nonneg mn'" "mn' \<noteq> NaN" "nonneg mx'" "mx' \<noteq> NaN" by simp_all
  have in_iff: "x \<in> set rs \<longleftrightarrow> x \<in> set rs'" if "x \<noteq> NaN" for x
    using assms(3) that by blast
  have "mn = mn'"
  proof (rule ccontr)
    assume ne: "mn \<noteq> mn'"
    then consider "flt mn mn'" | "flt mn' mn"
      using flt_trichotomy [OF n(1) n'(1) n(2) n'(2)] by blast
    then show False
    proof cases
      case 1
      with b(1) have "mn \<in> set rs" by (auto simp: d_inf_def)
      then have "mn \<in> set rs'" using in_iff n(2) by simp
      with b'(2) 1 show False by blast
    next
      case 2
      with b'(1) have "mn' \<in> set rs'" by (auto simp: d_inf_def)
      then have "mn' \<in> set rs" using in_iff n'(2) by simp
      with b(2) 2 show False by blast
    qed
  qed
  moreover have "mx = mx'"
  proof (rule ccontr)
    assume ne: "mx \<noteq> mx'"
    then consider "flt mx mx'" | "flt mx' mx"
      using flt_trichotomy [OF n(3) n'(3) n(4) n'(4)] by blast
    then show False
    proof cases
      case 1
      with b'(3) n(3) have "mx' \<in> set rs'" by (auto simp: d_zero_def not_flt_zero)
      then have "mx' \<in> set rs" using in_iff n'(4) by simp
      with b(4) 1 show False by blast
    next
      case 2
      with b(3) n'(3) have "mx \<in> set rs" by (auto simp: d_zero_def not_flt_zero)
      then have "mx \<in> set rs'" using in_iff n(4) by simp
      with b'(4) 2 show False by blast
    qed
  qed
  ultimately show ?thesis by (simp add: t t')
qed

section \<open>The pairs of points\<close>

lemma set_pairs_lt_Un: "set (pairs_lt D) = (\<Union>i\<in>{0..<D - 1}. Pair i ` {Suc i..<D})"
  by (simp add: pairs_lt_def)

lemma in_pairs_lt: "(a, b) \<in> set (pairs_lt D) \<longleftrightarrow> a < b \<and> b < D"
proof
  assume "(a, b) \<in> set (pairs_lt D)"
  then obtain i where "i \<in> {0..<D - 1}" "(a, b) \<in> Pair i ` {Suc i..<D}"
    unfolding set_pairs_lt_Un by (rule UN_E)
  then show "a < b \<and> b < D" by (clarsimp simp: image_iff)
next
  assume ab: "a < b \<and> b < D"
  then have "a \<in> {0..<D - 1}" by auto
  moreover have "(a, b) \<in> Pair a ` {Suc a..<D}" using ab by simp
  ultimately show "(a, b) \<in> set (pairs_lt D)"
    unfolding set_pairs_lt_Un by (rule UN_I)
qed

lemma set_pairs_lt: "set (pairs_lt D) = {(i, j). i < j \<and> j < D}"
proof (rule set_eqI)
  fix x :: "nat \<times> nat"
  show "x \<in> set (pairs_lt D) \<longleftrightarrow> x \<in> {(i, j). i < j \<and> j < D}"
    by (cases x) (simp add: in_pairs_lt)
qed

lemma distinct_concat_map_key:
  "distinct xs \<Longrightarrow> (\<And>x. x \<in> set xs \<Longrightarrow> distinct (g x)) \<Longrightarrow>
   (\<And>x y. x \<in> set xs \<Longrightarrow> y \<in> set (g x) \<Longrightarrow> key y = x) \<Longrightarrow>
   distinct (concat (map g xs))"
proof (induction xs)
  case Nil
  then show ?case by simp
next
  case (Cons a xs)
  then have "distinct (concat (map g xs))" by simp
  moreover have "distinct (g a)" using Cons.prems by simp
  moreover have "set (g a) \<inter> (\<Union>x\<in>set xs. set (g x)) = {}"
  proof (rule ccontr)
    assume "set (g a) \<inter> (\<Union>x\<in>set xs. set (g x)) \<noteq> {}"
    then obtain y x where "y \<in> set (g a)" "x \<in> set xs" "y \<in> set (g x)" by blast
    then have "key y = a" "key y = x" using Cons.prems(3) by simp_all
    with \<open>x \<in> set xs\<close> Cons.prems(1) show False by simp
  qed
  ultimately show ?case by simp
qed

lemma distinct_pairs_lt: "distinct (pairs_lt D)"
  unfolding pairs_lt_def
  by (rule distinct_concat_map_key [where key = fst]) (auto simp: distinct_map inj_on_def)

lemma sum_descending: "(\<Sum>i<n. n - i) = (\<Sum>i<n. Suc i)"
proof -
  have "(\<Sum>i<n. n - i) = (\<Sum>i<n. Suc (n - Suc i))"
    by (rule sum.cong) (simp_all add: Suc_diff_Suc)
  also have "\<dots> = (\<Sum>i<n. Suc i)"
    by (rule sum.nat_diff_reindex [of "\<lambda>i. Suc i" n])
  finally show ?thesis .
qed

lemma sum_Suc_lessThan: "2 * (\<Sum>i<n. Suc i) = n * Suc n"
  by (induction n) simp_all

lemma length_pairs_lt: "length (pairs_lt D) = D choose 2"
proof (cases D)
  case 0
  then show ?thesis by (simp add: pairs_lt_def)
next
  case (Suc n)
  have "length (pairs_lt D) = sum_list (map (\<lambda>i. n - i) [0..<n])"
    by (simp add: pairs_lt_def Suc length_concat comp_def del: upt_Suc)
  also have "\<dots> = (\<Sum>i<n. n - i)"
    by (simp add: interv_sum_list_conv_sum_set_nat atLeast0LessThan)
  also have "\<dots> = (\<Sum>i<n. Suc i)" by (rule sum_descending)
  finally have "2 * length (pairs_lt D) = n * Suc n"
    by (simp only: sum_Suc_lessThan)
  then have "length (pairs_lt D) = Suc n * n div 2" by (simp add: mult.commute)
  then show ?thesis by (simp add: choose_two Suc)
qed

section \<open>The pairwise kernel\<close>

text \<open>
  C1: for an input with \<open>D\<close> points, \<open>pdist_ratio\<close> takes every pair \<open>i < j\<close> of the \<open>D\<close>
  points (there are \<open>C(D,2)\<close> of them, each taken once), computes the squared distance in
  numerator-space (dimension \<open>M\<close>) and in denominator-space (dimension \<open>N\<close>) and their
  ratio, keeps the running minimum, from positive infinity, and the running maximum, from
  zero, of the ratios, and stores the square root of the minimum in the first output and
  the square root of the maximum in the second.
\<close>

theorem pdist_ratio_min_max_over_pairs:
  "pdist_ratio_body (int D) (int M) (int N) stride_num_d stride_m stride_den_d stride_n
     [num, den, op1, op2] mem =
   (case track_ratios
           (map (pdist_ratio_at mem M N stride_num_d stride_m stride_den_d stride_n num den)
              (pairs_lt D)) of
      (dr_min, dr_max) \<Rightarrow> (mem(op1 := npy_sqrt dr_min))(op2 := npy_sqrt dr_max))
   \<and> set (pairs_lt D) = {(i, j). i < j \<and> j < D}
   \<and> distinct (pairs_lt D)
   \<and> length (pairs_lt D) = D choose 2
   \<and> track_ratios [] = (Infty False, Zero False)
   \<and> track_ratios (rs @ [r]) =
       (case track_ratios rs of (dr_min, dr_max) \<Rightarrow>
          (if flt r dr_min then r else dr_min, if fgt r dr_max then r else dr_max))
   \<and> (case track_ratios rs of (dr_min, dr_max) \<Rightarrow>
         (dr_min = Infty False \<or> dr_min \<in> set rs) \<and> (\<forall>r \<in> set rs. \<not> flt r dr_min) \<and>
         (dr_max = Zero False \<or> dr_max \<in> set rs) \<and> (\<forall>r \<in> set rs. \<not> fgt r dr_max))"
proof -
  have "pdist_ratio_body (int D) (int M) (int N) stride_num_d stride_m stride_den_d stride_n
     [num, den, op1, op2] mem =
   (case track_ratios
           (map (pdist_ratio_at mem M N stride_num_d stride_m stride_den_d stride_n num den)
              (pairs_lt D)) of
      (dr_min, dr_max) \<Rightarrow> (mem(op1 := npy_sqrt dr_min))(op2 := npy_sqrt dr_max))"
    using pdist_ratio_body_eq [of "int D" "int M" "int N"] by simp
  moreover have "track_ratios [] = (Infty False, Zero False)"
    by (simp add: track_ratios_def d_inf_def d_zero_def)
  moreover have "track_ratios (rs @ [r]) =
       (case track_ratios rs of (dr_min, dr_max) \<Rightarrow>
          (if flt r dr_min then r else dr_min, if fgt r dr_max then r else dr_max))"
    by (simp add: track_ratios_snoc ratio_update_def)
  moreover note set_pairs_lt distinct_pairs_lt length_pairs_lt
    track_ratios_bounds [of rs, unfolded d_inf_def d_zero_def]
  ultimately show ?thesis by blast
qed

text \<open>Three points on a line, at 0, 1, 3 in numerator-space and at 0, 2, 3 in
  denominator-space: the squared ratios are 1/4, 1 and 4.\<close>

theorem pdist_ratio_min_max_over_pairs_witness:
  "pdist_ratio_body 3 1 1 8 8 8 8 [0, 24, 48, 56]
     (\<lambda>a. if a = 8 then Finite 1 else if a = 16 then Finite 3 else if a = 32 then Finite 2
           else if a = 40 then Finite 3 else Zero False) 48 = Finite (1 / 2)
   \<and> pdist_ratio_body 3 1 1 8 8 8 8 [0, 24, 48, 56]
     (\<lambda>a. if a = 8 then Finite 1 else if a = 16 then Finite 3 else if a = 32 then Finite 2
           else if a = 40 then Finite 3 else Zero False) 56 = Finite 2"
proof -
  let ?mem = "\<lambda>a::int. if a = 8 then Finite 1 else if a = 16 then Finite 3
                 else if a = 32 then Finite 2 else if a = 40 then Finite 3 else Zero False"
  have t: "track_ratios (map (pdist_ratio_at ?mem 1 1 8 8 8 8 0 24) (pairs_lt 3)) =
           (Finite (1 / 4), Finite 4)"
    by code_simp
  have s: "npy_sqrt (Finite (1 / 4)) = Finite (1 / 2)" "npy_sqrt (Finite 4) = Finite 2"
    by code_simp+
  have "pdist_ratio_body (int 3) (int 1) (int 1) 8 8 8 8 [0, 24, 48, 56] ?mem =
        (?mem(48 := Finite (1 / 2)))(56 := Finite 2)"
    using pdist_ratio_min_max_over_pairs [of 3 1 1 8 8 8 8 0 24 48 56 ?mem]
    by (simp only: t s prod.case)
  then show ?thesis by simp
qed

section \<open>Degenerate inputs\<close>

lemma pairs_lt_few: "D < 2 \<Longrightarrow> pairs_lt D = []"
  by (cases D) (simp_all add: pairs_lt_def)

lemma product_Nil_right: "List.product xs [] = []"
  by (induction xs) simp_all

lemma track_ratios_Nil: "track_ratios [] = (d_inf, d_zero)"
  by (simp add: track_ratios_def)

text \<open>
  C4: with fewer than two points (\<open>D = 0\<close> or \<open>D = 1\<close>) \<open>pdist_ratio\<close> goes through no pair:
  the running minimum stays at positive infinity and the running maximum at zero, and
  the outputs, after the square root, are \<open>+infinity\<close> and \<open>0.0\<close> exactly.  The same holds for
  \<open>cdist_ratio\<close> when \<open>P = 0\<close> or \<open>R = 0\<close>.
\<close>

theorem ratio_defaults_without_pairs:
  "(len_d < 2 \<longrightarrow>
      pdist_ratio_body len_d len_m len_n stride_num_d stride_m stride_den_d stride_n
        [num, den, op1, op2] mem =
      (mem(op1 := Infty False))(op2 := Zero False))
   \<and> (len_fr_d \<le> 0 \<or> len_to_d \<le> 0 \<longrightarrow>
      cdist_ratio_body (len_fr_d, len_m2, len_to_d, len_n2)
        ((stride_num_fr_d, stride_fr_m), (stride_num_to_d, stride_to_m),
         (stride_den_fr_d, stride_fr_n), (stride_den_to_d, stride_to_n))
        [num_fr, num_to, den_fr, den_to, oq1, oq2] mem2 =
      (mem2(oq1 := Infty False))(oq2 := Zero False))"
proof (intro conjI impI)
  assume "len_d < 2"
  then have "pairs_lt (nat len_d) = []" by (intro pairs_lt_few) simp
  then show "pdist_ratio_body len_d len_m len_n stride_num_d stride_m stride_den_d stride_n
        [num, den, op1, op2] mem = (mem(op1 := Infty False))(op2 := Zero False)"
    by (simp add: pdist_ratio_body_eq track_ratios_Nil d_inf_def d_zero_def)
next
  assume "len_fr_d \<le> 0 \<or> len_to_d \<le> 0"
  then have "List.product [0..<nat len_fr_d] [0..<nat len_to_d] = []"
    by (auto simp: product_Nil_right)
  then show "cdist_ratio_body (len_fr_d, len_m2, len_to_d, len_n2)
        ((stride_num_fr_d, stride_fr_m), (stride_num_to_d, stride_to_m),
         (stride_den_fr_d, stride_fr_n), (stride_den_to_d, stride_to_n))
        [num_fr, num_to, den_fr, den_to, oq1, oq2] mem2 =
      (mem2(oq1 := Infty False))(oq2 := Zero False)"
    by (simp add: cdist_ratio_body_eq track_ratios_Nil d_inf_def d_zero_def)
qed

text \<open>One point for \<open>pdist_ratio\<close>; two from-points and no to-point for \<open>cdist_ratio\<close>.\<close>

theorem ratio_defaults_without_pairs_witness:
  "(1::int) < 2 \<and> ((2::int) \<le> 0 \<or> (0::int) \<le> 0)
   \<and> pdist_ratio_body 1 3 3 24 8 24 8 [0, 24, 48, 56] (\<lambda>a. Finite 1) =
      ((\<lambda>a. Finite 1)(48 := Infty False))(56 := Zero False)
   \<and> cdist_ratio_body (2, 3, 0, 3) ((24, 8), (24, 8), (24, 8), (24, 8))
        [0, 48, 96, 144, 192, 200] (\<lambda>a. Finite 1) =
      ((\<lambda>a. Finite 1)(192 := Infty False))(200 := Zero False)"
  using ratio_defaults_without_pairs
    [where len_d = 1 and len_m = 3 and len_n = 3 and stride_num_d = 24 and stride_m = 8
       and stride_den_d = 24 and stride_n = 8 and num = 0 and den = 24 and ?op1.0 = 48
       and ?op2.0 = 56 and mem = "\<lambda>a. Finite 1"
       and len_fr_d = 2 and len_to_d = 0 and ?len_m2.0 = 3 and ?len_n2.0 = 3
       and stride_num_fr_d = 24 and stride_fr_m = 8 and stride_num_to_d = 24
       and stride_to_m = 8 and stride_den_fr_d = 24 and stride_fr_n = 8
       and stride_den_to_d = 24 and stride_to_n = 8
       and num_fr = 0 and num_to = 48 and den_fr = 96 and den_to = 144
       and ?oq1.0 = 192 and ?oq2.0 = 200 and ?mem2.0 = "\<lambda>a. Finite 1"]
  by simp

section \<open>The cross kernel on one set of points\<close>

lemma product_concat:
  "List.product xs ys = concat (map (\<lambda>x. map (Pair x) ys) xs)"
  by (induction xs) simp_all

lemma nonneg_pdist_ratio_at:
  "nonneg (pdist_ratio_at mem M N stride_num_d stride_m stride_den_d stride_n num den p)"
  by (cases p) (simp add: pdist_ratio_at_def nonneg_fdiv nonneg_sq_dist)

lemma pdist_ratio_at_sym:
  "pdist_ratio_at mem M N stride_num_d stride_m stride_den_d stride_n num den (i, j) =
   pdist_ratio_at mem M N stride_num_d stride_m stride_den_d stride_n num den (j, i)"
  by (simp add: pdist_ratio_at_def sq_dist_sym)

lemma fdiv_zero_or_NaN:
  "x = Zero False \<or> x = NaN \<Longrightarrow> y = Zero False \<or> y = NaN \<Longrightarrow> fdiv x y = NaN"
  by auto

lemma pdist_ratio_at_self:
  "pdist_ratio_at mem M N stride_num_d stride_m stride_den_d stride_n num den (i, i) = NaN"
  unfolding pdist_ratio_at_def prod.case
  by (rule fdiv_zero_or_NaN) (rule sq_dist_self)+

lemma cdist_ratio_at_same:
  "cdist_ratio_at mem M N
     ((stride_num_d, stride_m), (stride_num_d, stride_m),
      (stride_den_d, stride_n), (stride_den_d, stride_n)) num num den den =
   pdist_ratio_at mem M N stride_num_d stride_m stride_den_d stride_n num den"
  by (simp add: cdist_ratio_at_def pdist_ratio_at_def)

lemma ratios_square_vs_pairs:
  fixes f :: "nat \<times> nat \<Rightarrow> double"
  assumes sym: "\<And>i j. f (i, j) = f (j, i)" and self: "\<And>i. f (i, i) = NaN"
  shows "set (map f (List.product [0..<D] [0..<D])) - {NaN} = set (map f (pairs_lt D)) - {NaN}"
proof (intro equalityI subsetI)
  fix x assume "x \<in> set (map f (List.product [0..<D] [0..<D])) - {NaN}"
  then obtain i j where ij: "i < D" "j < D" "x = f (i, j)" "x \<noteq> NaN" by auto
  with self have "i \<noteq> j" by auto
  then consider "i < j" | "j < i" by linarith
  then have "x \<in> f ` set (pairs_lt D)"
  proof cases
    case 1
    with ij have "(i, j) \<in> set (pairs_lt D)" by (simp add: in_pairs_lt)
    with ij show ?thesis by blast
  next
    case 2
    with ij have "(j, i) \<in> set (pairs_lt D)" by (simp add: in_pairs_lt)
    moreover have "x = f (j, i)" using ij sym by simp
    ultimately show ?thesis by blast
  qed
  with ij show "x \<in> set (map f (pairs_lt D)) - {NaN}" by simp
next
  fix x assume "x \<in> set (map f (pairs_lt D)) - {NaN}"
  then obtain i j where "(i, j) \<in> set (pairs_lt D)" "x = f (i, j)" "x \<noteq> NaN" by auto
  then have "i < D" "j < D" by (auto simp: in_pairs_lt)
  with \<open>x = f (i, j)\<close> \<open>x \<noteq> NaN\<close>
  show "x \<in> set (map f (List.product [0..<D] [0..<D])) - {NaN}" by auto
qed

lemma track_ratios_square_vs_pairs:
  "track_ratios (map (pdist_ratio_at mem M N stride_num_d stride_m stride_den_d stride_n num den)
      (List.product [0..<D] [0..<D])) =
   track_ratios (map (pdist_ratio_at mem M N stride_num_d stride_m stride_den_d stride_n num den)
      (pairs_lt D))"
proof (rule track_ratios_cong_set)
  show "\<forall>r\<in>set (map (pdist_ratio_at mem M N stride_num_d stride_m stride_den_d stride_n num den)
      (List.product [0..<D] [0..<D])). nonneg r"
    by (auto simp: nonneg_pdist_ratio_at)
  show "\<forall>r\<in>set (map (pdist_ratio_at mem M N stride_num_d stride_m stride_den_d stride_n num den)
      (pairs_lt D)). nonneg r"
    by (auto simp: nonneg_pdist_ratio_at)
  show "set (map (pdist_ratio_at mem M N stride_num_d stride_m stride_den_d stride_n num den)
          (List.product [0..<D] [0..<D])) - {NaN} =
        set (map (pdist_ratio_at mem M N stride_num_d stride_m stride_den_d stride_n num den)
          (pairs_lt D)) - {NaN}"
    by (rule ratios_square_vs_pairs) (rule pdist_ratio_at_sym pdist_ratio_at_self)+
qed

text \<open>
  C3: \<open>cdist_ratio\<close> tracks the ratios over the whole cross product of the \<open>P\<close> from-points
  and the \<open>R\<close> to-points, with no restriction to \<open>i < j\<close> and the diagonal included.  When the
  to-set is the from-set, the ratio of a point with itself is NaN, both comparisons with it
  are false, so the running minimum and maximum stay as they are, and the kernel stores
  the same extrema as \<open>pdist_ratio\<close> on that set.
\<close>

theorem cdist_ratio_cross_product:
  "cdist_ratio_body (int P, int M, int R, int N)
     ((stride_num_fr_d, stride_fr_m), (stride_num_to_d, stride_to_m),
      (stride_den_fr_d, stride_fr_n), (stride_den_to_d, stride_to_n))
     [num_fr, num_to, den_fr, den_to, op1, op2] mem =
   (case track_ratios
           (map (cdist_ratio_at mem M N
                   ((stride_num_fr_d, stride_fr_m), (stride_num_to_d, stride_to_m),
                    (stride_den_fr_d, stride_fr_n), (stride_den_to_d, stride_to_n))
                   num_fr num_to den_fr den_to)
              (List.product [0..<P] [0..<R])) of
      (dr_min, dr_max) \<Rightarrow> (mem(op1 := npy_sqrt dr_min))(op2 := npy_sqrt dr_max))
   \<and> cdist_ratio_body (int D, int M, int D, int N)
       ((stride_num_d, stride_m), (stride_num_d, stride_m),
        (stride_den_d, stride_n), (stride_den_d, stride_n))
       [num, num, den, den, op1, op2] mem =
     pdist_ratio_body (int D) (int M) (int N) stride_num_d stride_m stride_den_d stride_n
       [num, den, op1, op2] mem
   \<and> cdist_ratio_at mem M N
       ((stride_num_d, stride_m), (stride_num_d, stride_m),
        (stride_den_d, stride_n), (stride_den_d, stride_n)) num num den den (i, i) = NaN
   \<and> \<not> flt NaN dr_min \<and> \<not> fgt NaN dr_max
   \<and> ratio_update NaN (dr_min, dr_max) = (dr_min, dr_max)"
proof -
  have "cdist_ratio_body (int P, int M, int R, int N)
     ((stride_num_fr_d, stride_fr_m), (stride_num_to_d, stride_to_m),
      (stride_den_fr_d, stride_fr_n), (stride_den_to_d, stride_to_n))
     [num_fr, num_to, den_fr, den_to, op1, op2] mem =
   (case track_ratios
           (map (cdist_ratio_at mem M N
                   ((stride_num_fr_d, stride_fr_m), (stride_num_to_d, stride_to_m),
                    (stride_den_fr_d, stride_fr_n), (stride_den_to_d, stride_to_n))
                   num_fr num_to den_fr den_to)
              (List.product [0..<P] [0..<R])) of
      (dr_min, dr_max) \<Rightarrow> (mem(op1 := npy_sqrt dr_min))(op2 := npy_sqrt dr_max))"
    using cdist_ratio_body_eq [of "int P" "int M" "int R" "int N"] by simp
  moreover have "cdist_ratio_body (int D, int M, int D, int N)
       ((stride_num_d, stride_m), (stride_num_d, stride_m),
        (stride_den_d, stride_n), (stride_den_d, stride_n))
       [num, num, den, den, op1, op2] mem =
     pdist_ratio_body (int D) (int M) (int N) stride_num_d stride_m stride_den_d stride_n
       [num, den, op1, op2] mem"
    by (simp add: cdist_ratio_body_eq pdist_ratio_body_eq cdist_ratio_at_same
        track_ratios_square_vs_pairs)
  moreover have "cdist_ratio_at mem M N
       ((stride_num_d, stride_m), (stride_num_d, stride_m),
        (stride_den_d, stride_n), (stride_den_d, stride_n)) num num den den (i, i) = NaN"
    by (simp add: cdist_ratio_at_same pdist_ratio_at_self)
  moreover have "\<not> flt NaN dr_min" "\<not> fgt NaN dr_max"
    by (simp_all add: fgt_def)
  moreover have "ratio_update NaN (dr_min, dr_max) = (dr_min, dr_max)"
    by simp
  ultimately show ?thesis by blast
qed

text \<open>Two points on a line, at 0 and 3 in numerator-space and at 0 and 1 in
  denominator-space, as from-set and as to-set: of the four pairs the two self-pairs have
  the ratio NaN, the two others the squared ratio 9.\<close>

theorem cdist_ratio_cross_product_witness:
  "cdist_ratio_body (2, 1, 2, 1) ((8, 8), (8, 8), (8, 8), (8, 8)) [0, 0, 16, 16, 32, 40]
     (\<lambda>a. if a = 8 then Finite 3 else if a = 24 then Finite 1 else Zero False) =
   ((\<lambda>a. if a = 8 then Finite 3 else if a = 24 then Finite 1 else Zero False)
      (32 := Finite 3))(40 := Finite 3)"
proof -
  let ?mem = "\<lambda>a::int. if a = 8 then Finite 3 else if a = 24 then Finite 1 else Zero False"
  have t: "track_ratios (map (pdist_ratio_at ?mem 1 1 8 8 8 8 0 16) (pairs_lt 2)) =
           (Finite 9, Finite 9)"
    by code_simp
  have s: "npy_sqrt (Finite 9) = Finite 3"
    by code_simp
  have "cdist_ratio_body (int 2, int 1, int 2, int 1) ((8, 8), (8, 8), (8, 8), (8, 8))
          [0, 0, 16, 16, 32, 40] ?mem =
        pdist_ratio_body (int 2) (int 1) (int 1) 8 8 8 8 [0, 16, 32, 40] ?mem"
    by (rule cdist_ratio_cross_product [THEN conjunct2, THEN conjunct1])
  also have "\<dots> = (?mem(32 := Finite 3))(40 := Finite 3)"
    by (simp only: pdist_ratio_body_eq nat_int t s prod.case)
  finally show ?thesis by simp
qed

section \<open>Identical numerator and denominator spaces\<close>

lemma flt_one_inf: "flt (Finite 1) (Infty False)"
  by (simp add: flt_def)

lemma flt_zero_one: "flt (Zero False) (Finite 1)"
  by (simp add: flt_def)

lemma track_ratios_ones:
  "(\<forall>r \<in> set rs. r = NaN \<or> r = Finite 1) \<Longrightarrow>
   track_ratios rs = (if Finite 1 \<in> set rs then (Finite 1, Finite 1) else (d_inf, d_zero))"
proof (induction rs rule: rev_induct)
  case Nil
  then show ?case by (simp add: track_ratios_def)
next
  case (snoc r rs)
  then have ih: "track_ratios rs =
      (if Finite 1 \<in> set rs then (Finite 1, Finite 1) else (d_inf, d_zero))"
    and r: "r = NaN \<or> r = Finite 1"
    by simp_all
  show ?case
    unfolding track_ratios_snoc ih
    using r by (auto simp: ratio_update_def fgt_def d_inf_def d_zero_def flt_one_inf flt_zero_one)
qed

lemma sq_dist_same_values:
  assumes "\<forall>i<D. \<forall>k<M. mem (num + int i * stride_num_d + int k * stride_m) =
                          mem (den + int i * stride_den_d + int k * stride_n)"
    and "i < D" "j < D"
  shows "sq_dist mem (den + int i * stride_den_d) stride_n (den + int j * stride_den_d) stride_n M =
         sq_dist mem (num + int i * stride_num_d) stride_m (num + int j * stride_num_d) stride_m M"
  unfolding sq_dist_def
  by (rule sq_diff_sum_cong) (use assms in simp_all)

lemma pdist_ratio_at_same_values:
  assumes "\<forall>i<D. \<forall>k<M. mem (num + int i * stride_num_d + int k * stride_m) =
                          mem (den + int i * stride_den_d + int k * stride_n)"
    and "i < D" "j < D"
  shows "pdist_ratio_at mem M M stride_num_d stride_m stride_den_d stride_n num den (i, j) =
         (case sq_dist mem (num + int i * stride_num_d) stride_m
                 (num + int j * stride_num_d) stride_m M of
            Finite q \<Rightarrow> Finite 1 | _ \<Rightarrow> NaN)"
  unfolding pdist_ratio_at_def prod.case sq_dist_same_values [OF assms]
  by (rule fdiv_self) (rule nonneg_sq_dist)

text \<open>
  C5, as the code has it: for \<open>D\<close> points with the same coordinates in numerator-space
  and in denominator-space (\<open>M = N\<close>), of which at least one pair has a computed squared
  distance that is finite and not zero, \<open>pdist_ratio\<close> stores \<open>1.0\<close> in both outputs.
  (Such a pair exists only if \<open>D \<ge> 2\<close> and \<open>M \<ge> 1\<close>.)
\<close>

theorem pdist_ratio_identical_spaces:
  assumes "\<forall>i<D. \<forall>k<M. mem (num + int i * stride_num_d + int k * stride_m) =
                          mem (den + int i * stride_den_d + int k * stride_n)"
    and "\<exists>i j q. i < j \<and> j < D \<and> q \<noteq> 0 \<and>
           sq_dist mem (num + int i * stride_num_d) stride_m
             (num + int j * stride_num_d) stride_m M = Finite q"
  shows "pdist_ratio_body (int D) (int M) (int M) stride_num_d stride_m stride_den_d stride_n
           [num, den, op1, op2] mem =
         (mem(op1 := Finite 1))(op2 := Finite 1)"
proof -
  let ?R = "pdist_ratio_at mem M M stride_num_d stride_m stride_den_d stride_n num den"
  have all: "\<forall>r \<in> set (map ?R (pairs_lt D)). r = NaN \<or> r = Finite 1"
  proof
    fix r assume "r \<in> set (map ?R (pairs_lt D))"
    then obtain i j where ij: "(i, j) \<in> set (pairs_lt D)" "r = ?R (i, j)" by auto
    then have "i < D" "j < D" by (auto simp: in_pairs_lt)
    from pdist_ratio_at_same_values [OF assms(1) this] ij(2)
    show "r = NaN \<or> r = Finite 1" by (auto split: double.splits)
  qed
  from assms(2) obtain i j q where ij: "i < j" "j < D"
    and q: "sq_dist mem (num + int i * stride_num_d) stride_m
             (num + int j * stride_num_d) stride_m M = Finite q"
    by blast
  then have "i < D" by simp
  from pdist_ratio_at_same_values [OF assms(1) this ij(2)] q
  have "?R (i, j) = Finite 1" by simp
  moreover have "(i, j) \<in> set (pairs_lt D)" using ij by (simp add: in_pairs_lt)
  ultimately have "Finite 1 \<in> set (map ?R (pairs_lt D))" by force
  with track_ratios_ones [OF all]
  have "track_ratios (map ?R (pairs_lt D)) = (Finite 1, Finite 1)" by simp
  then show ?thesis
    using pdist_ratio_body_eq [of "int D" "int M" "int M" stride_num_d stride_m stride_den_d
        stride_n num den op1 op2 mem]
    by (simp add: sqrt64_1)
qed

text \<open>Two points on a line, at 0 and 3, numerator and denominator read from the same
  array.\<close>

theorem pdist_ratio_identical_spaces_witness:
  "pdist_ratio_body 2 1 1 8 8 8 8 [0, 0, 16, 24]
     (\<lambda>a. if a = 8 then Finite 3 else Zero False) =
   ((\<lambda>a. if a = 8 then Finite 3 else Zero False)(16 := Finite 1))(24 := Finite 1)"
proof -
  let ?mem = "\<lambda>a::int. if a = 8 then Finite 3 else Zero False"
  have same: "\<forall>i<2::nat. \<forall>k<1::nat. ?mem (0 + int i * 8 + int k * 8) = ?mem (0 + int i * 8 + int k * 8)"
    by simp
  have "sq_dist ?mem (0 + int 0 * 8) 8 (0 + int 1 * 8) 8 1 = Finite 9"
    by (simp add: sq_dist_def sq_diff_sum_def d_zero_def fsub_def round64_9)
  then have pair: "\<exists>i j q. i < j \<and> j < (2::nat) \<and> q \<noteq> 0 \<and>
           sq_dist ?mem (0 + int i * 8) 8 (0 + int j * 8) 8 1 = Finite q"
    by (intro exI [of _ 0] exI [of _ 1] exI [of _ 9]) simp
  show ?thesis
    using pdist_ratio_identical_spaces [OF same pair, where ?op1.0 = 16 and ?op2.0 = 24] by simp
qed

text \<open>
  C5 as stated fails: two points with the same coordinates (both at 1.0, read from the same
  array for numerator and denominator) have the ratio \<open>0/0\<close>, which is NaN and passes
  neither comparison; the outputs stay at \<open>+infinity\<close> and \<open>0.0\<close>.
\<close>

theorem pdist_ratio_identical_spaces_counterexample:
  "pdist_ratio_body 2 1 1 8 8 8 8 [0, 0, 16, 24] (\<lambda>a. Finite 1) 16 = Infty False
   \<and> pdist_ratio_body 2 1 1 8 8 8 8 [0, 0, 16, 24] (\<lambda>a. Finite 1) 24 = Zero False"
proof -
  have "track_ratios (map (pdist_ratio_at (\<lambda>a. Finite 1) 1 1 8 8 8 8 0 0) (pairs_lt 2)) =
        (Infty False, Zero False)"
    by code_simp
  then show ?thesis
    using pdist_ratio_body_eq [of 2 1 1 8 8 8 8 0 0 16 24 "\<lambda>a. Finite 1"]
    by simp
qed

section \<open>Matrix multiplication\<close>

lemma fold_upd_other:
  "(\<And>p. p \<in> set ps \<Longrightarrow> a \<noteq> f p) \<Longrightarrow> fold (\<lambda>p d. d(f p := g p)) ps d a = d a"
  by (induction ps arbitrary: d) simp_all

lemma fold_upd_hit:
  "p < P \<Longrightarrow> (\<And>p'. p' < P \<Longrightarrow> p' \<noteq> p \<Longrightarrow> f p' \<noteq> f p) \<Longrightarrow>
   fold (\<lambda>p d. d(f p := g p)) [0..<P] d (f p) = g p"
proof (induction P)
  case 0
  then show ?case by simp
next
  case (Suc P)
  show ?case
  proof (cases "p = P")
    case True
    then show ?thesis by simp
  next
    case False
    with Suc.prems have "p < P" by simp
    moreover have "f p \<noteq> f P" using Suc.prems(2) [of P] False by fastforce
    ultimately show ?thesis using Suc.IH Suc.prems(2) by simp
  qed
qed

lemma matmul_n_fold:
  "(\<And>n. n < N \<Longrightarrow> op_z \<noteq> X + int n * sx \<and> op_z \<noteq> Y + int n * sy) \<Longrightarrow>
   fold (matmul_n_step op_z sx sy) (map int [0..<N]) (mem, X, Y) =
     (mem(op_z := foldl (\<lambda>a n. fadd a (fmul (mem (X + int n * sx)) (mem (Y + int n * sy))))
                    (mem op_z) [0..<N]),
      X + int N * sx, Y + int N * sy)"
proof (induction N)
  case 0
  then show ?case by simp
next
  case (Suc N)
  then have ne: "X + int N * sx \<noteq> op_z" "Y + int N * sy \<noteq> op_z" by fastforce+
  have ih: "fold (matmul_n_step op_z sx sy) (map int [0..<N]) (mem, X, Y) =
     (mem(op_z := foldl (\<lambda>a n. fadd a (fmul (mem (X + int n * sx)) (mem (Y + int n * sy))))
                    (mem op_z) [0..<N]),
      X + int N * sx, Y + int N * sy)"
    by (rule Suc.IH) (use Suc.prems in simp)
  have "fold (matmul_n_step op_z sx sy) (map int [0..<Suc N]) (mem, X, Y) =
      matmul_n_step op_z sx sy (int N)
        (fold (matmul_n_step op_z sx sy) (map int [0..<N]) (mem, X, Y))"
    by simp
  also have "\<dots> = matmul_n_step op_z sx sy (int N)
      (mem(op_z := foldl (\<lambda>a n. fadd a (fmul (mem (X + int n * sx)) (mem (Y + int n * sy))))
                    (mem op_z) [0..<N]),
       X + int N * sx, Y + int N * sy)"
    by (simp only: ih)
  also have "\<dots> =
     (mem(op_z := foldl (\<lambda>a n. fadd a (fmul (mem (X + int n * sx)) (mem (Y + int n * sy))))
                    (mem op_z) [0..<Suc N]),
      X + int (Suc N) * sx, Y + int (Suc N) * sy)"
    by (simp add: matmul_n_step_def ne distrib_right add.assoc)
  finally show ?case .
qed

lemma matmul_p_step_eq:
  assumes "\<And>n. n < N \<Longrightarrow> Z \<noteq> X + int n * sxn \<and> Z \<noteq> Y + int n * syn"
  shows "matmul_p_step (int N) sxn syn syp szp pp (mem, X, Y, Z) =
     (mem(Z := foldl (\<lambda>a n. fadd a (fmul (mem (X + int n * sxn)) (mem (Y + int n * syn))))
                 d_zero [0..<N]),
      X, Y + syp, Z + szp)"
proof -
  have "foldl (\<lambda>a n. fadd a (fmul ((mem(Z := d_zero)) (X + int n * sxn))
                                    ((mem(Z := d_zero)) (Y + int n * syn)))) d_zero [0..<N] =
        foldl (\<lambda>a n. fadd a (fmul (mem (X + int n * sxn)) (mem (Y + int n * syn)))) d_zero [0..<N]"
    by (rule foldl_cong) (use assms in auto)
  then show ?thesis
    using matmul_n_fold [of N Z X sxn Y syn "mem(Z := d_zero)"] assms
    by (simp add: matmul_p_step_def for_loop_fold0)
qed

lemma matmul_p_fold:
  assumes agree: "\<And>p n. p < P \<Longrightarrow> n < N \<Longrightarrow>
        cur (X + int n * sxn) = src (X + int n * sxn) \<and>
        cur (Y + int p * syp + int n * syn) = src (Y + int p * syp + int n * syn)"
    and disj: "\<And>p' p n. p' < P \<Longrightarrow> p < P \<Longrightarrow> n < N \<Longrightarrow>
        Z + int p' * szp \<noteq> X + int n * sxn \<and> Z + int p' * szp \<noteq> Y + int p * syp + int n * syn"
    and K: "K \<le> P"
  shows "fold (matmul_p_step (int N) sxn syn syp szp) (map int [0..<K]) (cur, X, Y, Z) =
     (fold (\<lambda>p d. d(Z + int p * szp :=
               foldl (\<lambda>a n. fadd a (fmul (src (X + int n * sxn))
                                          (src (Y + int p * syp + int n * syn)))) d_zero [0..<N]))
        [0..<K] cur,
      X, Y + int K * syp, Z + int K * szp)"
  using K
proof (induction K)
  case 0
  then show ?case by simp
next
  case (Suc K)
  then have K: "K < P" by simp
  let ?cur = "fold (\<lambda>p d. d(Z + int p * szp :=
               foldl (\<lambda>a n. fadd a (fmul (src (X + int n * sxn))
                                          (src (Y + int p * syp + int n * syn)))) d_zero [0..<N]))
        [0..<K] cur"
  have same: "?cur a = cur a" if "\<And>p. p < K \<Longrightarrow> Z + int p * szp \<noteq> a" for a
  proof (rule fold_upd_other)
    fix p assume "p \<in> set [0..<K]"
    then have "p < K" by simp
    from that [OF this] show "a \<noteq> Z + int p * szp" by (rule not_sym)
  qed
  have dK: "Z + int p * szp \<noteq> X + int n * sxn"
    "Z + int p * szp \<noteq> Y + int K * syp + int n * syn" if "p < K" "n < N" for p n
  proof -
    from that K have "p < P" by simp
    from disj [OF this K that(2)]
    show "Z + int p * szp \<noteq> X + int n * sxn"
      "Z + int p * szp \<noteq> Y + int K * syp + int n * syn" by simp_all
  qed
  have rx: "?cur (X + int n * sxn) = src (X + int n * sxn)" if "n < N" for n
  proof -
    have "?cur (X + int n * sxn) = cur (X + int n * sxn)"
      by (rule same) (rule dK(1) [OF _ that])
    then show ?thesis using agree [OF K that] by simp
  qed
  have ry: "?cur (Y + int K * syp + int n * syn) = src (Y + int K * syp + int n * syn)"
    if "n < N" for n
  proof -
    have "?cur (Y + int K * syp + int n * syn) = cur (Y + int K * syp + int n * syn)"
      by (rule same) (rule dK(2) [OF _ that])
    then show ?thesis using agree [OF K that] by simp
  qed
  have cell: "foldl (\<lambda>a n. fadd a (fmul (?cur (X + int n * sxn))
                                        (?cur (Y + int K * syp + int n * syn)))) d_zero [0..<N] =
        foldl (\<lambda>a n. fadd a (fmul (src (X + int n * sxn))
                                   (src (Y + int K * syp + int n * syn)))) d_zero [0..<N]"
    by (rule foldl_cong) (simp_all add: rx ry)
  have step: "matmul_p_step (int N) sxn syn syp szp (int K)
        (?cur, X, Y + int K * syp, Z + int K * szp) =
      (?cur(Z + int K * szp :=
          foldl (\<lambda>a n. fadd a (fmul (?cur (X + int n * sxn))
                                     (?cur (Y + int K * syp + int n * syn)))) d_zero [0..<N]),
       X, Y + int K * syp + syp, Z + int K * szp + szp)"
    by (rule matmul_p_step_eq) (use disj [of K K] K in simp)
  have ih: "fold (matmul_p_step (int N) sxn syn syp szp) (map int [0..<K]) (cur, X, Y, Z) =
      (?cur, X, Y + int K * syp, Z + int K * szp)"
    by (rule Suc.IH) (use K in simp)
  have "fold (matmul_p_step (int N) sxn syn syp szp) (map int [0..<Suc K]) (cur, X, Y, Z) =
      matmul_p_step (int N) sxn syn syp szp (int K)
        (fold (matmul_p_step (int N) sxn syn syp szp) (map int [0..<K]) (cur, X, Y, Z))"
    by simp
  also have "\<dots> = (?cur(Z + int K * szp :=
          foldl (\<lambda>a n. fadd a (fmul (src (X + int n * sxn))
                                     (src (Y + int K * syp + int n * syn)))) d_zero [0..<N]),
       X, Y + int K * syp + syp, Z + int K * szp + szp)"
    by (simp only: ih step cell)
  also have "\<dots> = (fold (\<lambda>p d. d(Z + int p * szp :=
               foldl (\<lambda>a n. fadd a (fmul (src (X + int n * sxn))
                                          (src (Y + int p * syp + int n * syn)))) d_zero [0..<N]))
        [0..<Suc K] cur,
      X, Y + int (Suc K) * syp, Z + int (Suc K) * szp)"
    by (simp add: distrib_right add.assoc)
  finally show ?case .
qed

lemma fold2_upd_other:
  "(\<And>m p. m \<in> set ms \<Longrightarrow> p \<in> set ps \<Longrightarrow> a \<noteq> f m p) \<Longrightarrow>
   fold (\<lambda>m d. fold (\<lambda>p d. d(f m p := g m p)) ps d) ms d a = d a"
proof (induction ms arbitrary: d)
  case Nil
  then show ?case by simp
next
  case (Cons m ms)
  have "fold (\<lambda>m d. fold (\<lambda>p d. d(f m p := g m p)) ps d) (m # ms) d a =
        fold (\<lambda>m d. fold (\<lambda>p d. d(f m p := g m p)) ps d) ms
          (fold (\<lambda>p d. d(f m p := g m p)) ps d) a"
    by simp
  also have "\<dots> = fold (\<lambda>p d. d(f m p := g m p)) ps d a"
    by (rule Cons.IH) (use Cons.prems in simp)
  also have "\<dots> = d a"
    by (rule fold_upd_other) (use Cons.prems in simp)
  finally show ?case .
qed

lemma fold2_upd_hit:
  assumes "m < M" "p < P"
    and inj: "\<And>m' p'. m' < M \<Longrightarrow> p' < P \<Longrightarrow> f m' p' = f m p \<Longrightarrow> m' = m \<and> p' = p"
  shows "fold (\<lambda>m d. fold (\<lambda>p d. d(f m p := g m p)) [0..<P] d) [0..<M] d (f m p) = g m p"
  using assms(1) inj
proof (induction M)
  case 0
  then show ?case by simp
next
  case (Suc M)
  let ?W = "fold (\<lambda>m d. fold (\<lambda>p d. d(f m p := g m p)) [0..<P] d) [0..<M] d"
  have unfold: "fold (\<lambda>m d. fold (\<lambda>p d. d(f m p := g m p)) [0..<P] d) [0..<Suc M] d =
      fold (\<lambda>p d. d(f M p := g M p)) [0..<P] ?W"
    by simp
  show ?case
  proof (cases "m = M")
    case True
    have "fold (\<lambda>p d. d(f M p := g M p)) [0..<P] ?W (f M p) = g M p"
    proof (rule fold_upd_hit [OF assms(2)])
      fix p' assume "p' < P" "p' \<noteq> p"
      then show "f M p' \<noteq> f M p" using Suc.prems(2) [of M p'] True by auto
    qed
    then show ?thesis unfolding unfold using True by simp
  next
    case False
    with Suc.prems have m: "m < M" by simp
    have "fold (\<lambda>p d. d(f M p := g M p)) [0..<P] ?W (f m p) = ?W (f m p)"
    proof (rule fold_upd_other)
      fix p' assume "p' \<in> set [0..<P]"
      then have "p' < P" by simp
      then show "f m p \<noteq> f M p'" using Suc.prems(2) [of M p'] False by auto
    qed
    also have "\<dots> = g m p"
      by (rule Suc.IH [OF m]) (use Suc.prems(2) less_SucI in blast)
    finally show ?thesis unfolding unfold .
  qed
qed

lemma matmul_m_step_eq:
  assumes agree: "\<And>p n. p < P \<Longrightarrow> n < N \<Longrightarrow>
        cur (X + int n * sxn) = src (X + int n * sxn) \<and>
        cur (Y + int p * syp + int n * syn) = src (Y + int p * syp + int n * syn)"
    and disj: "\<And>p' p n. p' < P \<Longrightarrow> p < P \<Longrightarrow> n < N \<Longrightarrow>
        Z + int p' * szp \<noteq> X + int n * sxn \<and> Z + int p' * szp \<noteq> Y + int p * syp + int n * syn"
  shows "matmul_m_step (int N) (int P) sxm sxn syn syp szm szp mm (cur, X, Y, Z) =
     (fold (\<lambda>p d. d(Z + int p * szp :=
               foldl (\<lambda>a n. fadd a (fmul (src (X + int n * sxn))
                                          (src (Y + int p * syp + int n * syn)))) d_zero [0..<N]))
        [0..<P] cur,
      X + sxm, Y, Z + szm)"
proof -
  have "fold (matmul_p_step (int N) sxn syn syp szp) (map int [0..<P]) (cur, X, Y, Z) =
     (fold (\<lambda>p d. d(Z + int p * szp :=
               foldl (\<lambda>a n. fadd a (fmul (src (X + int n * sxn))
                                          (src (Y + int p * syp + int n * syn)))) d_zero [0..<N]))
        [0..<P] cur,
      X, Y + int P * syp, Z + int P * szp)"
    by (rule matmul_p_fold [where P = P]) (simp_all add: agree disj)
  then show ?thesis
    by (simp add: matmul_m_step_def for_loop_fold0)
qed

lemma matmul_m_fold:
  fixes steps :: matmul_steps
  assumes steps: "steps = ((sxm, sxn), (syn, syp), (szm, szp))"
    and agree: "\<And>m p n. m < M \<Longrightarrow> p < P \<Longrightarrow> n < N \<Longrightarrow>
        cur (x_at steps x m n) = src (x_at steps x m n) \<and>
        cur (y_at steps y n p) = src (y_at steps y n p)"
    and disj: "\<And>m' p' m p n. m' < M \<Longrightarrow> p' < P \<Longrightarrow> m < M \<Longrightarrow> p < P \<Longrightarrow> n < N \<Longrightarrow>
        z_at steps z m' p' \<noteq> x_at steps x m n \<and> z_at steps z m' p' \<noteq> y_at steps y n p"
    and K: "K \<le> M"
  shows "fold (matmul_m_step (int N) (int P) sxm sxn syn syp szm szp) (map int [0..<K])
           (cur, x, y, z) =
     (fold (\<lambda>m d. fold (\<lambda>p d. d(z_at steps z m p := matmul_cell src steps x y N m p))
                      [0..<P] d) [0..<K] cur,
      x + int K * sxm, y, z + int K * szm)"
  using K
proof (induction K)
  case 0
  then show ?case by simp
next
  case (Suc K)
  then have K: "K < M" by simp
  let ?rows = "\<lambda>K. fold (\<lambda>m d. fold (\<lambda>p d. d(z_at steps z m p := matmul_cell src steps x y N m p))
                      [0..<P] d) [0..<K] cur"
  have ih: "fold (matmul_m_step (int N) (int P) sxm sxn syn syp szm szp) (map int [0..<K])
           (cur, x, y, z) = (?rows K, x + int K * sxm, y, z + int K * szm)"
    by (rule Suc.IH) (use K in simp)
  have same: "?rows K a = cur a" if "\<And>m p. m < K \<Longrightarrow> p < P \<Longrightarrow> z_at steps z m p \<noteq> a" for a
  proof (rule fold2_upd_other)
    fix m p assume "m \<in> set [0..<K]" "p \<in> set [0..<P]"
    then have "m < K" "p < P" by simp_all
    from that [OF this] show "a \<noteq> z_at steps z m p" by (rule not_sym)
  qed
  have ag: "?rows K (x + int K * sxm + int n * sxn) = src (x + int K * sxm + int n * sxn) \<and>
            ?rows K (y + int p * syp + int n * syn) = src (y + int p * syp + int n * syn)"
    if "p < P" "n < N" for p n
  proof -
    have "?rows K (x_at steps x K n) = cur (x_at steps x K n)"
    proof (rule same)
      fix m' p' assume "m' < K" "p' < P"
      with K have "m' < M" by simp
      from disj [OF this \<open>p' < P\<close> K that] show "z_at steps z m' p' \<noteq> x_at steps x K n" by simp
    qed
    moreover have "?rows K (y_at steps y n p) = cur (y_at steps y n p)"
    proof (rule same)
      fix m' p' assume "m' < K" "p' < P"
      with K have "m' < M" by simp
      from disj [OF this \<open>p' < P\<close> K that] show "z_at steps z m' p' \<noteq> y_at steps y n p" by simp
    qed
    ultimately show ?thesis
      using agree [OF K that] by (simp add: x_at_def y_at_def steps)
  qed
  have dj: "z + int K * szm + int p' * szp \<noteq> x + int K * sxm + int n * sxn \<and>
            z + int K * szm + int p' * szp \<noteq> y + int p * syp + int n * syn"
    if "p' < P" "p < P" "n < N" for p' p n
    using disj [OF K that(1) K that(2) that(3)] by (simp add: x_at_def y_at_def z_at_def steps)
  have step: "matmul_m_step (int N) (int P) sxm sxn syn syp szm szp (int K)
        (?rows K, x + int K * sxm, y, z + int K * szm) =
     (fold (\<lambda>p d. d(z + int K * szm + int p * szp :=
               foldl (\<lambda>a n. fadd a (fmul (src (x + int K * sxm + int n * sxn))
                                          (src (y + int p * syp + int n * syn)))) d_zero [0..<N]))
        [0..<P] (?rows K),
      x + int K * sxm + sxm, y, z + int K * szm + szm)"
    by (rule matmul_m_step_eq) (simp_all add: ag dj)
  have "fold (matmul_m_step (int N) (int P) sxm sxn syn syp szm szp) (map int [0..<Suc K])
           (cur, x, y, z) =
        matmul_m_step (int N) (int P) sxm sxn syn syp szm szp (int K)
          (fold (matmul_m_step (int N) (int P) sxm sxn syn syp szm szp) (map int [0..<K])
             (cur, x, y, z))"
    by simp
  also have "\<dots> =
     (fold (\<lambda>p d. d(z + int K * szm + int p * szp :=
               foldl (\<lambda>a n. fadd a (fmul (src (x + int K * sxm + int n * sxn))
                                          (src (y + int p * syp + int n * syn)))) d_zero [0..<N]))
        [0..<P] (?rows K),
      x + int K * sxm + sxm, y, z + int K * szm + szm)"
    by (simp only: ih step)
  also have "\<dots> = (?rows (Suc K), x + int (Suc K) * sxm, y, z + int (Suc K) * szm)"
    by (simp add: x_at_def y_at_def z_at_def matmul_cell_def steps distrib_right add.assoc)
  finally show ?case .
qed

lemma matmul_body_rows:
  fixes steps :: matmul_steps
  assumes disj: "\<And>m' p' m p n. m' < M \<Longrightarrow> p' < P \<Longrightarrow> m < M \<Longrightarrow> p < P \<Longrightarrow> n < N \<Longrightarrow>
        z_at steps z m' p' \<noteq> x_at steps x m n \<and> z_at steps z m' p' \<noteq> y_at steps y n p"
  shows "matmul_body (int M, int N, int P) steps [x, y, z] mem =
     fold (\<lambda>m d. fold (\<lambda>p d. d(z_at steps z m p := matmul_cell mem steps x y N m p))
                     [0..<P] d) [0..<M] mem"
proof -
  obtain sxm sxn syn syp szm szp where steps: "steps = ((sxm, sxn), (syn, syp), (szm, szp))"
    by (metis prod.exhaust)
  have "fold (matmul_m_step (int N) (int P) sxm sxn syn syp szm szp) (map int [0..<M])
           (mem, x, y, z) =
     (fold (\<lambda>m d. fold (\<lambda>p d. d(z_at steps z m p := matmul_cell mem steps x y N m p))
                      [0..<P] d) [0..<M] mem,
      x + int M * sxm, y, z + int M * szm)"
    by (rule matmul_m_fold [where M = M, OF steps]) (simp_all add: disj)
  then show ?thesis
    by (simp add: matmul_body_def steps for_loop_fold0)
qed

lemma matmul_body_cells:
  fixes steps :: matmul_steps
  assumes inj: "\<And>m p m' p'. m < M \<Longrightarrow> p < P \<Longrightarrow> m' < M \<Longrightarrow> p' < P \<Longrightarrow>
        z_at steps z m p = z_at steps z m' p' \<Longrightarrow> m = m' \<and> p = p'"
    and disj: "\<And>m' p' m p n. m' < M \<Longrightarrow> p' < P \<Longrightarrow> m < M \<Longrightarrow> p < P \<Longrightarrow> n < N \<Longrightarrow>
        z_at steps z m' p' \<noteq> x_at steps x m n \<and> z_at steps z m' p' \<noteq> y_at steps y n p"
    and "m < M" "p < P"
  shows "matmul_body (int M, int N, int P) steps [x, y, z] mem (z_at steps z m p) =
         matmul_cell mem steps x y N m p"
proof -
  have rows: "matmul_body (int M, int N, int P) steps [x, y, z] mem =
     fold (\<lambda>m d. fold (\<lambda>p d. d(z_at steps z m p := matmul_cell mem steps x y N m p))
                     [0..<P] d) [0..<M] mem"
    by (rule matmul_body_rows) (rule disj)
  have "fold (\<lambda>m d. fold (\<lambda>p d. d(z_at steps z m p := matmul_cell mem steps x y N m p))
                     [0..<P] d) [0..<M] mem (z_at steps z m p) = matmul_cell mem steps x y N m p"
    by (rule fold2_upd_hit [OF assms(3,4)]) (use inj assms(3,4) in blast)
  then show ?thesis by (simp only: rows)
qed

lemma matmul_body_frame:
  fixes steps :: matmul_steps
  assumes disj: "\<And>m' p' m p n. m' < M \<Longrightarrow> p' < P \<Longrightarrow> m < M \<Longrightarrow> p < P \<Longrightarrow> n < N \<Longrightarrow>
        z_at steps z m' p' \<noteq> x_at steps x m n \<and> z_at steps z m' p' \<noteq> y_at steps y n p"
    and "\<And>m p. m < M \<Longrightarrow> p < P \<Longrightarrow> a \<noteq> z_at steps z m p"
  shows "matmul_body (int M, int N, int P) steps [x, y, z] mem a = mem a"
proof -
  have rows: "matmul_body (int M, int N, int P) steps [x, y, z] mem =
     fold (\<lambda>m d. fold (\<lambda>p d. d(z_at steps z m p := matmul_cell mem steps x y N m p))
                     [0..<P] d) [0..<M] mem"
    by (rule matmul_body_rows) (rule disj)
  have "fold (\<lambda>m d. fold (\<lambda>p d. d(z_at steps z m p := matmul_cell mem steps x y N m p))
                     [0..<P] d) [0..<M] mem a = mem a"
    by (rule fold2_upd_other) (use assms(2) in simp)
  then show ?thesis by (simp only: rows)
qed

text \<open>
  C2: for all \<open>M\<close>, \<open>N\<close> and \<open>P\<close>, matmul leaves in every output cell \<open>(m, p)\<close> the
  accumulation that starts from zero (the cell is set to zero first) and adds
  \<open>X[m,n] * Y[n,p]\<close> for \<open>n = 0\<close> up to \<open>N - 1\<close>, in that order.  The cells of \<open>Z\<close> are taken to
  be distinct and apart from those of \<open>X\<close> and \<open>Y\<close>, as the caller of a gufunc provides them;
  nothing else in memory changes.
\<close>

theorem matmul_accumulates_each_cell:
  fixes steps :: matmul_steps
  assumes "\<forall>m<M. \<forall>p<P. \<forall>m'<M. \<forall>p'<P.
             z_at steps z m p = z_at steps z m' p' \<longrightarrow> m = m' \<and> p = p'"
    and "\<forall>m'<M. \<forall>p'<P. \<forall>m<M. \<forall>p<P. \<forall>n<N.
             z_at steps z m' p' \<noteq> x_at steps x m n \<and> z_at steps z m' p' \<noteq> y_at steps y n p"
  shows "(\<forall>m<M. \<forall>p<P.
            matmul_body (int M, int N, int P) steps [x, y, z] mem (z_at steps z m p) =
            foldl (\<lambda>a n. fadd a (fmul (mem (x_at steps x m n)) (mem (y_at steps y n p))))
              d_zero [0..<N])
       \<and> (\<forall>a. (\<forall>m<M. \<forall>p<P. a \<noteq> z_at steps z m p) \<longrightarrow>
            matmul_body (int M, int N, int P) steps [x, y, z] mem a = mem a)"
proof (intro conjI allI impI)
  fix m p assume "m < M" "p < P"
  then have "matmul_body (int M, int N, int P) steps [x, y, z] mem (z_at steps z m p) =
             matmul_cell mem steps x y N m p"
    by (intro matmul_body_cells [where M = M and P = P]) (use assms in blast)+
  then show "matmul_body (int M, int N, int P) steps [x, y, z] mem (z_at steps z m p) =
            foldl (\<lambda>a n. fadd a (fmul (mem (x_at steps x m n)) (mem (y_at steps y n p))))
              d_zero [0..<N]"
    by (simp add: matmul_cell_def)
next
  fix a assume "\<forall>m<M. \<forall>p<P. a \<noteq> z_at steps z m p"
  then show "matmul_body (int M, int N, int P) steps [x, y, z] mem a = mem a"
    by (intro matmul_body_frame [where M = M and P = P]) (use assms in blast)+
qed

text \<open>The product of \<open>((1, 2), (3, 4))\<close> and \<open>((5, 6), (7, 8))\<close>, stored in rows at the
  addresses 0, 32 and 64.\<close>

theorem matmul_accumulates_each_cell_witness:
  "matmul_body (2, 2, 2) ((16, 8), (16, 8), (16, 8)) [0, 32, 64]
     (\<lambda>a. if 0 \<le> a \<and> a < 64 then Finite (of_int (a div 8 + 1)) else NaN) 88 = Finite 50"
proof -
  let ?steps = "((16, 8), (16, 8), (16, 8)) :: matmul_steps"
  let ?mem = "\<lambda>a::int. if 0 \<le> a \<and> a < 64 then Finite (of_int (a div 8 + 1)) else NaN"
  have inj: "\<forall>m<2::nat. \<forall>p<2::nat. \<forall>m'<2::nat. \<forall>p'<2::nat.
             z_at ?steps 64 m p = z_at ?steps 64 m' p' \<longrightarrow> m = m' \<and> p = p'"
    by (auto simp: z_at_def dest!: less_2_cases)
  have disj: "\<forall>m'<2::nat. \<forall>p'<2::nat. \<forall>m<2::nat. \<forall>p<2::nat. \<forall>n<2::nat.
             z_at ?steps 64 m' p' \<noteq> x_at ?steps 0 m n \<and> z_at ?steps 64 m' p' \<noteq> y_at ?steps 32 n p"
    by (auto simp: z_at_def x_at_def y_at_def dest!: less_2_cases)
  have cell: "foldl (\<lambda>a n. fadd a (fmul (?mem (x_at ?steps 0 1 n)) (?mem (y_at ?steps 32 n 1))))
              d_zero [0..<2] = Finite 50"
    by code_simp
  have z: "z_at ?steps 64 1 1 = 88" by (simp add: z_at_def)
  have "matmul_body (int 2, int 2, int 2) ?steps [0, 32, 64] ?mem (z_at ?steps 64 1 1) =
        foldl (\<lambda>a n. fadd a (fmul (?mem (x_at ?steps 0 1 n)) (?mem (y_at ?steps 32 n 1))))
              d_zero [0..<2]"
    by (rule matmul_accumulates_each_cell [OF inj disj, THEN conjunct1, rule_format]) simp_all
  then have "matmul_body (int 2, int 2, int 2) ?steps [0, 32, 64] ?mem 88 = Finite 50"
    by (simp only: cell z)
  then show ?thesis by simp
qed

section \<open>Multiplication by the identity matrix\<close>

lemma plain_times_zero: "plain_entry d \<Longrightarrow> \<exists>s. fmul d (Zero False) = Zero s"
  by (cases d) (auto simp: plain_entry_def)

lemma plain_times_one: "plain_entry d \<Longrightarrow> fmul d (Finite 1) = d"
  by (cases d) (simp_all add: plain_entry_def)

lemma zero_plus_plain: "plain_entry d \<Longrightarrow> fadd (Zero False) d = d"
  by (cases d) (simp_all add: plain_entry_def)

lemma plain_plus_zero: "plain_entry d \<Longrightarrow> fadd d (Zero s) = d"
  by (cases d) (simp_all add: plain_entry_def)

lemma dot_identity_column:
  assumes xs: "\<And>n. n < N \<Longrightarrow> plain_entry (xs n)"
    and ys: "\<And>n. n < N \<Longrightarrow> ys n = (if n = p then Finite 1 else Zero False)"
    and p: "p < N" and K: "K \<le> N"
  shows "foldl (\<lambda>a n. fadd a (fmul (xs n) (ys n))) (Zero False) [0..<K] =
         (if K \<le> p then Zero False else xs p)"
  using K
proof (induction K)
  case 0
  then show ?case by simp
next
  case (Suc K)
  then have K: "K < N" by simp
  have ih: "foldl (\<lambda>a n. fadd a (fmul (xs n) (ys n))) (Zero False) [0..<K] =
         (if K \<le> p then Zero False else xs p)"
    by (rule Suc.IH) (use K in simp)
  have pe: "plain_entry (xs K)" "plain_entry (xs p)" using xs K p by simp_all
  have step: "foldl (\<lambda>a n. fadd a (fmul (xs n) (ys n))) (Zero False) [0..<Suc K] =
      fadd (if K \<le> p then Zero False else xs p) (fmul (xs K) (ys K))"
    by (simp add: ih)
  obtain s where z: "fmul (xs K) (Zero False) = Zero s"
    using plain_times_zero [OF pe(1)] by blast
  consider "K < p" | "K = p" | "p < K" by linarith
  then have "fadd (if K \<le> p then Zero False else xs p) (fmul (xs K) (ys K)) =
      (if Suc K \<le> p then Zero False else xs p)"
  proof cases
    case 1
    then show ?thesis by (simp add: ys [OF K] z)
  next
    case 2
    have "ys p = Finite 1" using ys [OF p] by simp
    moreover have "fadd (Zero False) (fmul (xs p) (Finite 1)) = xs p"
      using pe(2) by (simp add: plain_times_one zero_plus_plain)
    ultimately show ?thesis using 2 by simp
  next
    case 3
    then show ?thesis by (simp add: ys [OF K] z plain_plus_zero [OF pe(2)])
  qed
  with step show ?case by simp
qed

lemma matmul_cell_identity:
  fixes steps :: matmul_steps
  assumes "\<And>n. n < N \<Longrightarrow> plain_entry (mem (x_at steps x m n))"
    and "\<And>n. n < N \<Longrightarrow> mem (y_at steps y n p) = (if n = p then Finite 1 else Zero False)"
    and "p < N"
  shows "matmul_cell mem steps x y N m p = mem (x_at steps x m p)"
  unfolding matmul_cell_def d_zero_def
  using dot_identity_column [of N "\<lambda>n. mem (x_at steps x m n)" "\<lambda>n. mem (y_at steps y n p)" p N]
    assms
  by simp

text \<open>
  C6, as the code has it: for a matrix \<open>X[M,N]\<close> whose entries are finite and not negative
  zero, and the \<open>N \<times> N\<close> identity matrix \<open>I\<close>, \<open>matmul(X, I)\<close> equals \<open>X\<close> element by element,
  bit for bit, the accumulation summing \<open>N\<close> terms for each cell (output cells distinct and
  apart from the inputs).
\<close>

theorem matmul_identity_right:
  fixes steps :: matmul_steps
  assumes "\<forall>m<M. \<forall>p<N. \<forall>m'<M. \<forall>p'<N.
             z_at steps z m p = z_at steps z m' p' \<longrightarrow> m = m' \<and> p = p'"
    and "\<forall>m'<M. \<forall>p'<N. \<forall>m<M. \<forall>p<N. \<forall>n<N.
             z_at steps z m' p' \<noteq> x_at steps x m n \<and> z_at steps z m' p' \<noteq> y_at steps y n p"
    and "\<forall>n<N. \<forall>p<N. mem (y_at steps y n p) = (if n = p then Finite 1 else Zero False)"
    and "\<forall>m<M. \<forall>n<N. plain_entry (mem (x_at steps x m n))"
  shows "\<forall>m<M. \<forall>p<N.
           matmul_body (int M, int N, int N) steps [x, y, z] mem (z_at steps z m p) =
           mem (x_at steps x m p)"
proof (intro allI impI)
  fix m p assume mp: "m < M" "p < N"
  have "matmul_body (int M, int N, int N) steps [x, y, z] mem (z_at steps z m p) =
        matmul_cell mem steps x y N m p"
    by (intro matmul_body_cells [where M = M and P = N] mp) (use assms(1,2) in blast)+
  also have "\<dots> = mem (x_at steps x m p)"
    by (rule matmul_cell_identity) (use assms(3,4) mp in simp_all)
  finally show "matmul_body (int M, int N, int N) steps [x, y, z] mem (z_at steps z m p) =
           mem (x_at steps x m p)" .
qed

text \<open>The row \<open>(3, 4)\<close> at address 0, the identity at 32, the result at 64.\<close>

theorem matmul_identity_right_witness:
  "matmul_body (1, 2, 2) ((16, 8), (16, 8), (16, 8)) [0, 32, 64]
     (\<lambda>a. if a = 0 then Finite 3 else if a = 8 then Finite 4
           else if a = 32 \<or> a = 56 then Finite 1 else Zero False) 72 = Finite 4"
proof -
  let ?steps = "((16, 8), (16, 8), (16, 8)) :: matmul_steps"
  let ?mem = "\<lambda>a::int. if a = 0 then Finite 3 else if a = 8 then Finite 4
           else if a = 32 \<or> a = 56 then Finite 1 else Zero False"
  have r: "round64 3 = Finite 3" "round64 4 = Finite 4"
    by code_simp+
  have inj: "\<forall>m<1::nat. \<forall>p<2::nat. \<forall>m'<1::nat. \<forall>p'<2::nat.
             z_at ?steps 64 m p = z_at ?steps 64 m' p' \<longrightarrow> m = m' \<and> p = p'"
    by (auto simp: z_at_def dest!: less_2_cases)
  have disj: "\<forall>m'<1::nat. \<forall>p'<2::nat. \<forall>m<1::nat. \<forall>p<2::nat. \<forall>n<2::nat.
             z_at ?steps 64 m' p' \<noteq> x_at ?steps 0 m n \<and> z_at ?steps 64 m' p' \<noteq> y_at ?steps 32 n p"
    by (auto simp: z_at_def x_at_def y_at_def dest!: less_2_cases)
  have ident: "\<forall>n<2::nat. \<forall>p<2::nat.
             ?mem (y_at ?steps 32 n p) = (if n = p then Finite 1 else Zero False)"
    by (auto simp: y_at_def dest!: less_2_cases)
  have plain: "\<forall>m<1::nat. \<forall>n<2::nat. plain_entry (?mem (x_at ?steps 0 m n))"
    by (auto simp: x_at_def plain_entry_def r dest!: less_2_cases)
  have "matmul_body (int 1, int 2, int 2) ?steps [0, 32, 64] ?mem (z_at ?steps 64 0 1) =
        ?mem (x_at ?steps 0 0 1)"
    by (rule matmul_identity_right [OF inj disj ident plain, rule_format]) simp_all
  then show ?thesis by (simp add: z_at_def x_at_def)
qed

text \<open>
  C6 as stated fails on entries that are not finite or are negative zero.  With the row
  \<open>(+infinity, 1)\<close>, the second cell of the product with the identity is
  \<open>inf * 0 + 1 * 1\<close>, which is NaN, not 1.  With the \<open>1 \<times> 1\<close> matrix \<open>(-0.0)\<close>, the cell is
  \<open>0.0 + (-0.0) * 1 = +0.0\<close>, whose sign bit differs from that of \<open>-0.0\<close>.
\<close>

theorem matmul_identity_right_counterexample:
  "matmul_body (1, 2, 2) ((16, 8), (16, 8), (16, 8)) [0, 32, 64]
     (\<lambda>a. if a = 0 then Infty False else if a = 8 \<or> a = 32 \<or> a = 56 then Finite 1
           else Zero False) 72 = NaN
   \<and> (\<lambda>a. if a = 0 then Infty False else if a = 8 \<or> a = 32 \<or> a = 56 then Finite 1
           else Zero False) (8::int) = Finite 1
   \<and> matmul_body (1, 1, 1) ((8, 8), (8, 8), (8, 8)) [0, 8, 16]
     (\<lambda>a. if a = 0 then Zero True else Finite 1) 16 = Zero False
   \<and> (\<lambda>a. if a = 0 then Zero True else Finite 1) (0::int) = Zero True"
proof -
  let ?steps = "((16, 8), (16, 8), (16, 8)) :: matmul_steps"
  let ?mem = "\<lambda>a::int. if a = 0 then Infty False else if a = 8 \<or> a = 32 \<or> a = 56 then Finite 1
           else Zero False"
  have "matmul_body (int 1, int 2, int 2) ?steps [0, 32, 64] ?mem (z_at ?steps 64 0 1) =
        matmul_cell ?mem ?steps 0 32 2 0 1"
    by (rule matmul_body_cells [where M = 1 and P = 2])
      (auto simp: z_at_def x_at_def y_at_def dest!: less_2_cases)
  also have "\<dots> = NaN"
    by (simp add: matmul_cell_def x_at_def y_at_def d_zero_def eval_nat_numeral)
  finally have a: "matmul_body (1, 2, 2) ?steps [0, 32, 64] ?mem 72 = NaN"
    by (simp add: z_at_def)
  let ?steps1 = "((8, 8), (8, 8), (8, 8)) :: matmul_steps"
  let ?mem1 = "\<lambda>a::int. if a = 0 then Zero True else Finite 1"
  have "matmul_body (int 1, int 1, int 1) ?steps1 [0, 8, 16] ?mem1 (z_at ?steps1 16 0 0) =
        matmul_cell ?mem1 ?steps1 0 8 1 0 0"
    by (rule matmul_body_cells [where M = 1 and P = 1])
      (auto simp: z_at_def x_at_def y_at_def)
  also have "\<dots> = Zero False"
    by (simp add: matmul_cell_def x_at_def y_at_def d_zero_def)
  finally have b: "matmul_body (1, 1, 1) ?steps1 [0, 8, 16] ?mem1 16 = Zero False"
    by (simp add: z_at_def)
  from a b show ?thesis by simp
qed

section \<open>The odometer visits the batch in row-major order\<close>

lemma advance_0 [simp]: "advance args 0 sts = args"
  by (induction args "0::int" sts rule: advance.induct) simp_all

lemma advance_advance: "advance (advance args i sts) j sts = advance args (i + j) sts"
  by (induction args i sts rule: advance.induct) (simp_all add: distrib_right)

lemma visits_loop:
  "visits axes idx args tr idx' args' \<Longrightarrow>
   odometer_loop axes body idx args s = Some (fold body tr s)"
proof (induction arbitrary: s rule: visits.induct)
  case (visits_last axes idx args idx' args')
  then show ?case by (subst odometer_loop.simps) simp
next
  case (visits_step axes idx args idx1 args1 tr idx' args')
  show ?case
    by (subst odometer_loop.simps) (simp add: visits_step.hyps(1) visits_step.IH)
qed

lemma visits_inner:
  "visits axes idx a tr idx' a' \<Longrightarrow> i + 1 < n \<Longrightarrow>
   visits ((n, sts) # axes) ((i + 1) # idx') (advance a' 1 sts) tr2 idxf af \<Longrightarrow>
   visits ((n, sts) # axes) (i # idx) a (tr @ tr2) idxf af"
proof (induction rule: visits.induct)
  case (visits_last axes idx args idx' args')
  then have "odometer_step ((n, sts) # axes) (i # idx) args =
      (False, (i + 1) # idx', advance args' 1 sts)"
    by (simp add: Let_def)
  then show ?case using visits_last.prems(2) by (auto intro: visits.visits_step)
next
  case (visits_step axes idx args idx1 args1 tr idx' args')
  then have "odometer_step ((n, sts) # axes) (i # idx) args = (False, i # idx1, args1)"
    by simp
  moreover have "visits ((n, sts) # axes) (i # idx1) args1 (tr @ tr2) idxf af"
    using visits_step by simp
  ultimately show ?case by (auto intro: visits.visits_step)
qed

lemma visits_inner_last:
  "visits axes idx a tr idx' a' \<Longrightarrow> \<not> i + 1 < n \<Longrightarrow>
   visits ((n, sts) # axes) (i # idx) a tr (0 # idx') (advance (advance a' 1 sts) (- n) sts)"
proof (induction rule: visits.induct)
  case (visits_last axes idx args idx' args')
  then have "odometer_step ((n, sts) # axes) (i # idx) args =
      (True, 0 # idx', advance (advance args' 1 sts) (- n) sts)"
    by (simp add: Let_def)
  then show ?case by (rule visits.visits_last)
next
  case (visits_step axes idx args idx1 args1 tr idx' args')
  then have "odometer_step ((n, sts) # axes) (i # idx) args = (False, i # idx1, args1)"
    by simp
  moreover have "visits ((n, sts) # axes) (i # idx1) args1 tr (0 # idx')
      (advance (advance args' 1 sts) (- n) sts)"
    using visits_step by simp
  ultimately show ?case by (rule visits.visits_step)
qed

lemma visits_outer_digit:
  assumes inner: "\<And>a. visits axes Z a (T a) Z a"
    and k: "int k < n"
  shows "visits ((n, sts) # axes) ((n - 1 - int k) # Z) (advance args (n - 1 - int k) sts)
           (concat (map (\<lambda>i. T (advance args i sts)) [n - 1 - int k..n - 1]))
           (0 # Z) args"
  using k
proof (induction k)
  case 0
  have "visits ((n, sts) # axes) ((n - 1) # Z) (advance args (n - 1) sts)
          (T (advance args (n - 1) sts)) (0 # Z)
          (advance (advance (advance args (n - 1) sts) 1 sts) (- n) sts)"
    by (rule visits_inner_last [OF inner]) simp
  then show ?case by (simp add: advance_advance)
next
  case (Suc k)
  let ?i = "n - 1 - int (Suc k)"
  have i1: "?i + 1 = n - 1 - int k" by simp
  have lt: "?i + 1 < n" by simp
  have rest: "visits ((n, sts) # axes) ((?i + 1) # Z) (advance (advance args ?i sts) 1 sts)
           (concat (map (\<lambda>i. T (advance args i sts)) [?i + 1..n - 1])) (0 # Z) args"
    unfolding advance_advance i1 by (rule Suc.IH) (use Suc.prems in simp)
  have "visits ((n, sts) # axes) (?i # Z) (advance args ?i sts)
          (T (advance args ?i sts) @ concat (map (\<lambda>i. T (advance args i sts)) [?i + 1..n - 1]))
          (0 # Z) args"
    by (rule visits_inner [OF inner lt rest])
  moreover have "[?i..n - 1] = ?i # [?i + 1..n - 1]"
    by (rule upto_rec1) simp
  ultimately show ?case by simp
qed

lemma visits_all:
  "list_all (\<lambda>(n, sts). 0 < n) axes \<Longrightarrow>
   visits axes (map (\<lambda>ax. 0) axes) args
     (map (\<lambda>idx. operand_addresses axes idx args) (batch_indices axes))
     (map (\<lambda>ax. 0) axes) args"
proof (induction axes arbitrary: args)
  case Nil
  have "visits [] [] args [args] [] args"
    by (rule visits.visits_last) simp
  then show ?case by (simp add: batch_indices_def)
next
  case (Cons ax axes)
  obtain n sts where ax: "ax = (n, sts)" by (cases ax)
  from Cons.prems ax have n: "0 < n" and pos: "list_all (\<lambda>(n, sts). 0 < n) axes" by simp_all
  let ?Z = "map (\<lambda>ax. 0::int) axes"
  let ?T = "\<lambda>a. map (\<lambda>idx. operand_addresses axes idx a) (batch_indices axes)"
  have inner: "\<And>a. visits axes ?Z a (?T a) ?Z a"
    by (rule Cons.IH [OF pos])
  have k: "int (nat (n - 1)) < n" using n by simp
  have "visits ((n, sts) # axes) ((n - 1 - int (nat (n - 1))) # ?Z)
          (advance args (n - 1 - int (nat (n - 1))) sts)
          (concat (map (\<lambda>i. ?T (advance args i sts)) [n - 1 - int (nat (n - 1))..n - 1]))
          (0 # ?Z) args"
    by (rule visits_outer_digit [where T = ?T, OF inner k])
  moreover have "n - 1 - int (nat (n - 1)) = 0" using n by simp
  ultimately have "visits ((n, sts) # axes) (0 # ?Z) args
          (concat (map (\<lambda>i. ?T (advance args i sts)) [0..n - 1])) (0 # ?Z) args"
    by simp
  moreover have "map (\<lambda>idx. operand_addresses ((n, sts) # axes) idx args)
                   (batch_indices ((n, sts) # axes)) =
                 concat (map (\<lambda>i. ?T (advance args i sts)) [0..n - 1])"
    by (simp add: batch_indices_def map_concat comp_def)
  ultimately show ?case by (simp add: ax)
qed

lemma product_lists_empty: "[] \<in> set xss \<Longrightarrow> product_lists xss = []"
  by (induction xss) auto

lemma outer_loop_eq:
  "outer_loop axes body args s =
     Some (fold body (map (\<lambda>idx. operand_addresses axes idx args) (batch_indices axes)) s)"
proof (cases "list_ex (\<lambda>(n, sts). n \<le> 0) axes")
  case True
  then obtain n sts where "(n, sts) \<in> set axes" "n \<le> 0"
    by (auto simp: list_ex_iff)
  then have "[] \<in> set (map (\<lambda>(n, sts). [0..n - 1]) axes)" by force
  then have "batch_indices axes = []"
    unfolding batch_indices_def by (rule product_lists_empty)
  with True show ?thesis by (simp add: outer_loop_def)
next
  case False
  then have "list_all (\<lambda>(n, sts). 0 < n) axes"
    by (auto simp: list_ex_iff list_all_iff)
  from visits_loop [OF visits_all [OF this]] False
  show ?thesis by (simp add: outer_loop_def)
qed

section \<open>The index vectors of a batch\<close>

lemma batch_indices_Nil: "batch_indices [] = [[]]"
  by (simp add: batch_indices_def)

lemma batch_indices_Cons:
  "batch_indices ((n, sts) # axes) = concat (map (\<lambda>i. map (Cons i) (batch_indices axes)) [0..n - 1])"
  by (simp add: batch_indices_def)

lemma distinct_batch_indices: "distinct (batch_indices axes)"
  unfolding batch_indices_def by (rule distinct_product_lists) auto

lemma in_batch_indices:
  "idx \<in> set (batch_indices axes) \<longleftrightarrow> list_all2 (\<lambda>i ax. 0 \<le> i \<and> i < fst ax) idx axes"
proof (induction axes arbitrary: idx)
  case Nil
  then show ?case by (simp add: batch_indices_Nil)
next
  case (Cons ax axes)
  obtain n sts where ax: "ax = (n, sts)" by (cases ax)
  show ?case
  proof
    assume "idx \<in> set (batch_indices (ax # axes))"
    then obtain i idx' where "idx = i # idx'" "0 \<le> i" "i < n" "idx' \<in> set (batch_indices axes)"
      unfolding ax batch_indices_Cons by auto
    then show "list_all2 (\<lambda>i ax. 0 \<le> i \<and> i < fst ax) idx (ax # axes)"
      by (simp add: ax Cons.IH)
  next
    assume "list_all2 (\<lambda>i ax. 0 \<le> i \<and> i < fst ax) idx (ax # axes)"
    then obtain i idx' where i: "idx = i # idx'" "0 \<le> i" "i < n"
      and "list_all2 (\<lambda>i ax. 0 \<le> i \<and> i < fst ax) idx' axes"
      by (auto simp: list_all2_Cons2 ax)
    then have "idx' \<in> set (batch_indices axes)" by (simp add: Cons.IH)
    moreover have "i \<in> set [0..n - 1]" using i by simp
    ultimately have "i # idx' \<in> (\<Union>i\<in>set [0..n - 1]. Cons i ` set (batch_indices axes))"
      by blast
    then show "idx \<in> set (batch_indices (ax # axes))"
      by (simp add: ax batch_indices_Cons i(1))
  qed
qed

lemma set_batch_indices:
  "set (batch_indices axes) = {idx. list_all2 (\<lambda>i ax. 0 \<le> i \<and> i < fst ax) idx axes}"
  by (auto simp: in_batch_indices)

lemma length_batch_indices:
  "length (batch_indices axes) = prod_list (map (\<lambda>(n, sts). nat n) axes)"
proof (induction axes)
  case Nil
  then show ?case by (simp add: batch_indices_Nil)
next
  case (Cons ax axes)
  obtain n sts where ax: "ax = (n, sts)" by (cases ax)
  have "length (concat (map (\<lambda>i. map (Cons i) (batch_indices axes)) xs)) =
        length xs * length (batch_indices axes)" for xs :: "int list"
    by (induction xs) simp_all
  then show ?case
    by (simp add: ax batch_indices_Cons Cons.IH)
qed

lemma sorted_lex_Cons_blocks:
  "sorted_wrt (<) xs \<Longrightarrow> sorted_wrt lex_less ys \<Longrightarrow>
   sorted_wrt lex_less (concat (map (\<lambda>i. map (Cons i) ys) xs))"
proof (induction xs)
  case Nil
  then show ?case by simp
next
  case (Cons x xs)
  have "sorted_wrt lex_less (map (Cons x) ys)"
    using Cons.prems(2) by (simp add: sorted_wrt_map)
  moreover have "sorted_wrt lex_less (concat (map (\<lambda>i. map (Cons i) ys) xs))"
    using Cons by simp
  moreover have "\<forall>a \<in> set (map (Cons x) ys). \<forall>b \<in> set (concat (map (\<lambda>i. map (Cons i) ys) xs)).
      lex_less a b"
    using Cons.prems(1) by auto
  ultimately show ?case by (simp add: sorted_wrt_append)
qed

lemma sorted_batch_indices: "sorted_wrt lex_less (batch_indices axes)"
proof (induction axes)
  case Nil
  then show ?case by (simp add: batch_indices_Nil)
next
  case (Cons ax axes)
  obtain n sts where ax: "ax = (n, sts)" by (cases ax)
  have "sorted_wrt (<) [0..n - 1]" by (simp add: strict_sorted_iff)
  then show ?case
    unfolding ax batch_indices_Cons using Cons.IH by (rule sorted_lex_Cons_blocks)
qed

lemma fold_count: "fold (\<lambda>a c. Suc c) xs c = length xs + c"
  by (induction xs arbitrary: c) simp_all

section \<open>The driver\<close>

text \<open>
  C8: for every batch descriptor the driver invokes the kernel body once for each
  combination of batch-axis indices, in row-major order (the last axis runs fastest,
  which is the lexicographic order of the index vectors), with the operand addresses of
  that combination; for the batch shape \<open>(2, 3)\<close> the order is
  \<open>(0,0), (0,1), (0,2), (1,0), (1,1), (1,2)\<close>.
\<close>

theorem odometer_row_major:
  "outer_loop axes body args s =
     Some (fold body (map (\<lambda>idx. operand_addresses axes idx args) (batch_indices axes)) s)
   \<and> set (batch_indices axes) = {idx. list_all2 (\<lambda>i ax. 0 \<le> i \<and> i < fst ax) idx axes}
   \<and> distinct (batch_indices axes)
   \<and> sorted_wrt lex_less (batch_indices axes)
   \<and> batch_indices [(2, sts1), (3, sts2)] = [[0, 0], [0, 1], [0, 2], [1, 0], [1, 1], [1, 2]]
   \<and> outer_loop [(2, [s1]), (3, [s2])] (\<lambda>a tr. tr @ [a]) [a0] [] =
       Some [[a0], [a0 + s2], [a0 + 2 * s2],
             [a0 + s1], [a0 + s1 + s2], [a0 + s1 + 2 * s2]]"
proof -
  have up: "[0..1] = [0, 1]" "[0..2] = [0, 1, 2]"
    by code_simp+
  have b: "batch_indices [(2, sts1), (3, sts2)] = [[0, 0], [0, 1], [0, 2], [1, 0], [1, 1], [1, 2]]"
    for sts1 sts2
    by (simp add: batch_indices_def up)
  have "outer_loop [(2, [s1]), (3, [s2])] (\<lambda>a tr. tr @ [a]) [a0] [] =
       Some [[a0], [a0 + s2], [a0 + 2 * s2],
             [a0 + s1], [a0 + s1 + s2], [a0 + s1 + 2 * s2]]"
    unfolding outer_loop_eq b by simp
  then show ?thesis
    by (intro conjI outer_loop_eq set_batch_indices distinct_batch_indices
        sorted_batch_indices b)
qed


text \<open>Two operands on the batch shape \<open>(2, 3)\<close>, the second one broadcast along the last
  axis.\<close>

theorem odometer_row_major_witness:
  "outer_loop [(2, [24, 8]), (3, [8, 0])] (\<lambda>a tr. tr @ [a]) [0, 100] [] =
     Some [[0, 100], [8, 100], [16, 100], [24, 108], [32, 108], [40, 108]]"
proof -
  note t = odometer_row_major [of "[(2, [24, 8]), (3, [8, 0])]" "\<lambda>a tr. tr @ [a]" "[0, 100]" "[]"
        "[24, 8]" "[8, 0]"]
  have b: "batch_indices [(2, [24, 8]), (3, [8, 0])] =
      [[0, 0], [0, 1], [0, 2], [1, 0], [1, 1], [1, 2]]"
    by (rule t [THEN conjunct2, THEN conjunct2, THEN conjunct2, THEN conjunct2, THEN conjunct1])
  have "outer_loop [(2, [24, 8]), (3, [8, 0])] (\<lambda>a tr. tr @ [a]) [0, 100] [] =
     Some (fold (\<lambda>a tr. tr @ [a])
       (map (\<lambda>idx. operand_addresses [(2, [24, 8]), (3, [8, 0])] idx [0, 100])
          (batch_indices [(2, [24, 8]), (3, [8, 0])])) [])"
    by (rule t [THEN conjunct1])
  then show ?thesis unfolding b by simp
qed

lemma outer_loop_zero_axis:
  "list_ex (\<lambda>ax. fst ax = 0) axes \<Longrightarrow> outer_loop axes body args s = Some s"
proof -
  assume "list_ex (\<lambda>ax. fst ax = 0) axes"
  then have "list_ex (\<lambda>(n, sts). n \<le> 0) axes" by (auto simp: list_ex_iff)
  then show ?thesis by (simp add: outer_loop_def)
qed

lemma outer_loop_count:
  "outer_loop axes (\<lambda>a c. Suc c) args 0 = Some (prod_list (map (\<lambda>ax. nat (fst ax)) axes))"
proof -
  have "(\<lambda>(n, sts). nat n) = (\<lambda>ax :: batch_axis. nat (fst ax))" by auto
  then show ?thesis
    by (simp add: outer_loop_eq fold_count length_batch_indices)
qed

text \<open>
  C9: the number of invocations of the kernel body is the product of the batch-axis
  sizes; when a batch axis has size zero the body is not invoked, the state (the memory)
  is returned as it was given, and the driver returns normally.
\<close>

theorem outer_loop_invocation_count:
  "outer_loop axes (\<lambda>a c. Suc c) args 0 = Some (prod_list (map (\<lambda>ax. nat (fst ax)) axes))
   \<and> (list_ex (\<lambda>ax. fst ax = 0) axes \<longrightarrow> outer_loop axes body args s = Some s)
   \<and> (list_ex (\<lambda>ax. fst ax = 0) axes \<longrightarrow>
        DOUBLE_matmul axes dims steps args mem = Some mem)"
  by (simp add: outer_loop_count outer_loop_zero_axis DOUBLE_matmul_def)

text \<open>The batch shape \<open>(2, 3)\<close> gives six invocations, the batch shape \<open>(2, 0)\<close> none.\<close>

theorem outer_loop_invocation_count_witness:
  "outer_loop [(2, [24]), (3, [8])] (\<lambda>a c. Suc c) [0] 0 = Some 6
   \<and> list_ex (\<lambda>ax. fst ax = 0) [(2, [24]), (0, [8 :: int])]
   \<and> outer_loop [(2, [24]), (0, [8])] (\<lambda>a tr. tr @ [a]) [0] [] = Some []"
proof -
  have "outer_loop [(2, [24]), (3, [8])] (\<lambda>a c. Suc c) [0] 0 =
        Some (prod_list (map (\<lambda>ax. nat (fst ax)) [(2, [24]), (3, [8 :: int])]))"
    by (rule outer_loop_invocation_count [THEN conjunct1])
  moreover have z: "list_ex (\<lambda>ax. fst ax = 0) [(2 :: int, [24 :: int]), (0, [8])]"
    by simp
  moreover have "outer_loop [(2, [24]), (0, [8])] (\<lambda>a tr. tr @ [a]) [0] [] = Some []"
    by (rule outer_loop_invocation_count [THEN conjunct2, THEN conjunct1, rule_format, OF z])
  ultimately show ?thesis by simp
qed

end
